theory Spec2Isabelle
  imports Complex_Main "HOL-Library.AList"
begin

section \<open>Floating-point values\<close>

text \<open>
  The weights, costs and scores of \<^verbatim>\<open>tools/tester.py\<close> and
  \<^verbatim>\<open>tools/generate_data.py\<close> are binary64 numbers. A value is finite, one of the
  two infinities, or NaN. The result of an operation on finite operands is the exact result
  rounded to the nearest binary64 number, ties going to the even significand; a result that
  rounds to \<open>2^1024\<close> in magnitude is an infinity. The sign of a zero is not modelled: a
  zero divisor is taken as \<open>+0.0\<close>.
\<close>

datatype fl = Fin real | PInf | NInf | NaN

text \<open>
  The exponent of the binade of \<open>x\<close> (that of the smallest normal number for a subnormal
  \<open>x\<close>), and the unit in the last place of a 53-bit significand there.
\<close>

definition expo :: "real \<Rightarrow> int" where
  "expo x = max \<lfloor>log 2 \<bar>x\<bar>\<rfloor> (- 1022)"

definition ulp :: "real \<Rightarrow> real" where
  "ulp x = 2 powi (expo x - 52)"

text \<open>The nearest integer, the even one of the two when \<open>y\<close> is half way.\<close>

definition round_even :: "real \<Rightarrow> int" where
  "round_even y =
     (let f = \<lfloor>y\<rfloor>; d = y - of_int f
      in if d < 1 / 2 then f else if 1 / 2 < d then f + 1 else if even f then f else f + 1)"

definition rounded :: "real \<Rightarrow> real" where
  "rounded x = of_int (round_even (x / ulp x)) * ulp x"

definition rnd :: "real \<Rightarrow> fl" where
  "rnd x =
     (if x = 0 then Fin 0
      else if 2 ^ 1024 \<le> rounded x then PInf
      else if rounded x \<le> - (2 ^ 1024) then NInf
      else Fin (rounded x))"

fun fadd :: "fl \<Rightarrow> fl \<Rightarrow> fl" where
  "fadd NaN y = NaN"
| "fadd x NaN = NaN"
| "fadd PInf NInf = NaN"
| "fadd NInf PInf = NaN"
| "fadd PInf y = PInf"
| "fadd x PInf = PInf"
| "fadd NInf y = NInf"
| "fadd x NInf = NInf"
| "fadd (Fin a) (Fin b) = rnd (a + b)"

fun fmul :: "fl \<Rightarrow> fl \<Rightarrow> fl" where
  "fmul NaN y = NaN"
| "fmul x NaN = NaN"
| "fmul (Fin a) (Fin b) = rnd (a * b)"
| "fmul (Fin a) PInf = (if a = 0 then NaN else if 0 < a then PInf else NInf)"
| "fmul (Fin a) NInf = (if a = 0 then NaN else if 0 < a then NInf else PInf)"
| "fmul PInf (Fin b) = (if b = 0 then NaN else if 0 < b then PInf else NInf)"
| "fmul NInf (Fin b) = (if b = 0 then NaN else if 0 < b then NInf else PInf)"
| "fmul PInf PInf = PInf"
| "fmul PInf NInf = NInf"
| "fmul NInf PInf = NInf"
| "fmul NInf NInf = PInf"

text \<open>
  Division as numpy does it on \<^verbatim>\<open>float64\<close>: dividing by zero is not an error
  (it warns), the result is an infinity, or NaN for \<open>0/0\<close>.
\<close>

fun fdiv :: "fl \<Rightarrow> fl \<Rightarrow> fl" where
  "fdiv NaN y = NaN"
| "fdiv x NaN = NaN"
| "fdiv (Fin a) (Fin b) =
     (if b = 0 then (if a = 0 then NaN else if 0 < a then PInf else NInf)
      else rnd (a / b))"
| "fdiv (Fin a) PInf = Fin 0"
| "fdiv (Fin a) NInf = Fin 0"
| "fdiv PInf (Fin b) = (if 0 \<le> b then PInf else NInf)"
| "fdiv NInf (Fin b) = (if 0 \<le> b then NInf else PInf)"
| "fdiv PInf PInf = NaN"
| "fdiv PInf NInf = NaN"
| "fdiv NInf PInf = NaN"
| "fdiv NInf NInf = NaN"

fun isnan :: "fl \<Rightarrow> bool" where
  "isnan NaN = True"
| "isnan x = False"

fun isinf :: "fl \<Rightarrow> bool" where
  "isinf PInf = True"
| "isinf NInf = True"
| "isinf x = False"

fun isfinite :: "fl \<Rightarrow> bool" where
  "isfinite (Fin a) = True"
| "isfinite x = False"

text \<open>The comparisons \<^verbatim>\<open><\<close> and \<^verbatim>\<open>==\<close>: false whenever an operand is NaN.\<close>

fun fl_lt :: "fl \<Rightarrow> fl \<Rightarrow> bool" where
  "fl_lt NaN y = False"
| "fl_lt x NaN = False"
| "fl_lt (Fin a) (Fin b) = (a < b)"
| "fl_lt (Fin a) PInf = True"
| "fl_lt (Fin a) NInf = False"
| "fl_lt PInf y = False"
| "fl_lt NInf NInf = False"
| "fl_lt NInf y = True"

fun fl_eq :: "fl \<Rightarrow> fl \<Rightarrow> bool" where
  "fl_eq NaN y = False"
| "fl_eq x NaN = False"
| "fl_eq x y = (x = y)"

text \<open>\<^verbatim>\<open>np.nan_to_num(x, nan=.., posinf=.., neginf=..)\<close> on a scalar.\<close>

fun nan_to_num :: "fl \<Rightarrow> fl \<Rightarrow> fl \<Rightarrow> fl \<Rightarrow> fl" where
  "nan_to_num NaN nan posinf neginf = nan"
| "nan_to_num PInf nan posinf neginf = posinf"
| "nan_to_num NInf nan posinf neginf = neginf"
| "nan_to_num (Fin a) nan posinf neginf = Fin a"

section \<open>Python numbers, exceptions and arrays\<close>

text \<open>
  \<^verbatim>\<open>get_path_cost\<close> starts from the Python integer \<^verbatim>\<open>0\<close>, adds numpy
  scalars to it, and returns the Python float \<^verbatim>\<open>np.inf\<close> on a NaN weight. The three
  kinds of number differ in how \<^verbatim>\<open>/\<close> treats a zero divisor, so the kind is kept.
\<close>

datatype pnum = PyInt int | PyFloat fl | NpFloat fl

text \<open>
  The exceptions the modelled code can raise. \<^verbatim>\<open>Exception msg\<close> stands for any
  other exception (of class \<^verbatim>\<open>Exception\<close>) raised by code outside this repository,
  with its message.
\<close>

datatype error =
  IndexError | OverflowError | TypeError | ZeroDivisionError | ValueError
  | AttributeError | AssertionError | Exception string

fun pnum_val :: "pnum \<Rightarrow> fl" where
  "pnum_val (PyInt k) = Fin (of_int k)"
| "pnum_val (PyFloat x) = x"
| "pnum_val (NpFloat x) = x"

fun is_numpy :: "pnum \<Rightarrow> bool" where
  "is_numpy (NpFloat x) = True"
| "is_numpy p = False"

text \<open>
  \<^verbatim>\<open>a / b\<close>: numpy's division as soon as one operand is a numpy scalar
  (\<^verbatim>\<open>np.float64\<close> subclasses \<^verbatim>\<open>float\<close> and its reflected method is
  tried first); between two Python numbers a zero divisor raises.
\<close>

definition py_truediv :: "pnum \<Rightarrow> pnum \<Rightarrow> error + fl" where
  "py_truediv a b =
     (if is_numpy a \<or> is_numpy b then Inr (fdiv (pnum_val a) (pnum_val b))
      else if pnum_val b = Fin 0 then Inl ZeroDivisionError
      else Inr (fdiv (pnum_val a) (pnum_val b)))"

text \<open>\<^verbatim>\<open>cost += weight\<close> with a numpy \<^verbatim>\<open>weight\<close>: the sum is a numpy scalar.\<close>

definition iadd :: "pnum \<Rightarrow> fl \<Rightarrow> pnum" where
  "iadd cost weight = NpFloat (fadd (pnum_val cost) weight)"

text \<open>
  An adjacency matrix is a two-dimensional array, given by its rows (all of one length).
  \<^verbatim>\<open>np.asarray(m).squeeze()\<close> drops every axis of length one, so a one-row or
  one-column matrix becomes one-dimensional and a \<open>1\<times>1\<close> matrix zero-dimensional.
\<close>

type_synonym matrix = "fl list list"

datatype ndarray = Arr0 fl | Arr1 "fl list" | Arr2 "fl list list"

definition ncols :: "matrix \<Rightarrow> nat" where
  "ncols m = (case m of [] \<Rightarrow> 0 | r # rs \<Rightarrow> length r)"

definition asarray_squeeze :: "matrix \<Rightarrow> ndarray" where
  "asarray_squeeze m =
     (if length m = 1 \<and> ncols m = 1 then Arr0 (hd (hd m))
      else if length m = 1 then Arr1 (hd m)
      else if ncols m = 1 then Arr1 (map hd m)
      else Arr2 m)"

text \<open>\<^verbatim>\<open>a.shape[0]\<close>: a zero-dimensional array has the empty shape.\<close>

fun shape0 :: "ndarray \<Rightarrow> error + nat" where
  "shape0 (Arr0 x) = Inl IndexError"
| "shape0 (Arr1 xs) = Inr (length xs)"
| "shape0 (Arr2 rows) = Inr (length rows)"

text \<open>An index into an axis of length \<open>n\<close>: negative indices count from the end.\<close>

definition norm_index :: "nat \<Rightarrow> int \<Rightarrow> nat option" where
  "norm_index n i =
     (if 0 \<le> i \<and> i < int n then Some (nat i)
      else if - int n \<le> i \<and> i < 0 then Some (nat (i + int n))
      else None)"

text \<open>
  numpy converts each index of \<^verbatim>\<open>a[i, j]\<close> to a C \<^verbatim>\<open>long\<close> of 64 bits, in
  order, before it looks at the array. A Python integer that does not fit is first made an
  array: one from \<open>2^63\<close> to \<open>2^64 - 1\<close> becomes an unsigned 64-bit scalar, whose
  conversion raises \<^verbatim>\<open>OverflowError\<close>; any other becomes an array of objects, which is
  not a valid index (\<^verbatim>\<open>IndexError\<close>).
\<close>

definition index_error :: "int \<Rightarrow> error option" where
  "index_error i =
     (if - (2 ^ 63) \<le> i \<and> i < 2 ^ 63 then None
      else if 2 ^ 63 \<le> i \<and> i < 2 ^ 64 then Some OverflowError
      else Some IndexError)"

text \<open>
  \<^verbatim>\<open>a[i, j]\<close>: two indices are too many for an array of fewer dimensions, and an
  index outside its axis is an error.
\<close>

definition getitem2 :: "ndarray \<Rightarrow> int \<Rightarrow> int \<Rightarrow> error + fl" where
  "getitem2 a i j =
     (case index_error i of
        Some e \<Rightarrow> Inl e
      | None \<Rightarrow>
          (case index_error j of
             Some e \<Rightarrow> Inl e
           | None \<Rightarrow>
               (case a of
                  Arr0 x \<Rightarrow> Inl IndexError
                | Arr1 xs \<Rightarrow> Inl IndexError
                | Arr2 rows \<Rightarrow>
                    (case norm_index (length rows) i of
                       None \<Rightarrow> Inl IndexError
                     | Some r \<Rightarrow>
                         (case norm_index (ncols rows) j of
                            None \<Rightarrow> Inl IndexError
                          | Some c \<Rightarrow> Inr (rows ! r ! c))))))"

section \<open>The scorer: \<^verbatim>\<open>PerformanceTestCase\<close>\<close>

text \<open>
  The pairs \<^verbatim>\<open>(i, path[idx + 1])\<close> of
  \<^verbatim>\<open>for idx, i in enumerate(path[:-1])\<close>.
\<close>

definition edges :: "int list \<Rightarrow> (int \<times> int) list" where
  "edges path = zip (butlast path) (tl path)"

fun path_cost_loop :: "ndarray \<Rightarrow> (int \<times> int) list \<Rightarrow> pnum \<Rightarrow> error + pnum" where
  "path_cost_loop a [] cost = Inr cost"
| "path_cost_loop a ((i, j) # es) cost =
     (case getitem2 a i j of
        Inl e \<Rightarrow> Inl e
      | Inr weight \<Rightarrow>
          if isnan weight then Inr (PyFloat PInf)
          else path_cost_loop a es (iadd cost weight))"

definition get_path_cost :: "matrix \<Rightarrow> int list \<Rightarrow> error + pnum" where
  "get_path_cost adjacency_matrix path =
     path_cost_loop (asarray_squeeze adjacency_matrix) (edges path) (PyInt 0)"

fun hamiltonian_loop :: "ndarray \<Rightarrow> (int \<times> int) list \<Rightarrow> error + bool" where
  "hamiltonian_loop a [] = Inr True"
| "hamiltonian_loop a ((i, j) # es) =
     (case getitem2 a i j of
        Inl e \<Rightarrow> Inl e
      | Inr weight \<Rightarrow>
          if isnan weight \<or> isinf weight \<or> \<not> isfinite weight then Inr False
          else hamiltonian_loop a es)"

definition is_hamiltonian_cycle :: "matrix \<Rightarrow> int list \<Rightarrow> error + bool" where
  "is_hamiltonian_cycle adjacency_matrix path =
     (let a = asarray_squeeze adjacency_matrix in
      case shape0 a of
        Inl e \<Rightarrow> Inl e
      | Inr n \<Rightarrow>
          if length path \<noteq> n + 1 then Inr False
          else if hd path \<noteq> last path then Inr False
          else if length (remdups (butlast path)) \<noteq> n then Inr False
          else hamiltonian_loop a (edges path))"

text \<open>
  \<^verbatim>\<open>compute_score\<close> reads and extends the warning set of the test case, so the
  set is passed in and returned. The reference solution of a record may be
  \<^verbatim>\<open>None\<close>; \<^verbatim>\<open>get_path_cost\<close> then fails on \<^verbatim>\<open>path[:-1]\<close>.
\<close>

definition not_hamiltonian_warning :: string where
  "not_hamiltonian_warning = ''The solution is not a Hamiltonian cycle.''"

definition compute_score ::
  "string list \<Rightarrow> matrix \<Rightarrow> int list \<Rightarrow> int list option \<Rightarrow> error + (fl \<times> string list)" where
  "compute_score warnings adjacency_matrix solution target_solution =
     (case is_hamiltonian_cycle adjacency_matrix solution of
        Inl e \<Rightarrow> Inl e
      | Inr False \<Rightarrow> Inr (Fin 0, List.insert not_hamiltonian_warning warnings)
      | Inr True \<Rightarrow>
          (case get_path_cost adjacency_matrix solution of
             Inl e \<Rightarrow> Inl e
           | Inr obj_cost \<Rightarrow>
               (case target_solution of
                  None \<Rightarrow> Inl TypeError
                | Some target \<Rightarrow>
                    (case get_path_cost adjacency_matrix target of
                       Inl e \<Rightarrow> Inl e
                     | Inr target_cost \<Rightarrow>
                         (case py_truediv target_cost obj_cost of
                            Inl e \<Rightarrow> Inl e
                          | Inr normalized_cost \<Rightarrow>
                              Inr (nan_to_num normalized_cost (Fin 1) (Fin 0) (Fin 0),
                                   warnings))))))"

subsection \<open>The grading run\<close>

record TestResult =
  name :: string
  percent_value :: fl
  message :: string

text \<open>\<^verbatim>\<open>sep.join(xs)\<close>.\<close>

fun join :: "string \<Rightarrow> string list \<Rightarrow> string" where
  "join sep [] = []"
| "join sep [x] = x"
| "join sep (x # y # ys) = x @ sep @ join sep (y # ys)"

text \<open>
  The loop of \<^verbatim>\<open>run\<close> either leaves the function through one of its two
  \<^verbatim>\<open>return\<close> statements or completes with the list of scores.
\<close>

datatype loop_exit = Returned TestResult "string list" | Completed "fl list" "string list"

text \<open>
  The class under test and its solving method are the candidate's code:
  \<^verbatim>\<open>cls_to_test\<close> constructs an object from the adjacency matrix or raises, and
  \<^verbatim>\<open>get_solution\<close> (the \<^verbatim>\<open>getattr\<close> and the call) returns a tour or raises;
  an exception is given by its message \<^verbatim>\<open>str(e)\<close>. The index \<open>i\<close> is that of
  \<^verbatim>\<open>enumerate\<close>.
\<close>

fun run_loop ::
  "string \<Rightarrow> (matrix \<Rightarrow> string + 'o) \<Rightarrow> ('o \<Rightarrow> string + int list) \<Rightarrow> int list option list \<Rightarrow>
   string list \<Rightarrow> fl list \<Rightarrow> nat \<Rightarrow> matrix list \<Rightarrow> error + loop_exit" where
  "run_loop nm cls_to_test get_solution expected_solutions warnings scores i [] =
     Inr (Completed scores warnings)"
| "run_loop nm cls_to_test get_solution expected_solutions warnings scores i
       (constructor_input # rest) =
     (if length expected_solutions \<le> i then Inl IndexError
      else
        case cls_to_test constructor_input of
          Inl e \<Rightarrow>
            Inr (Returned
              \<lparr>name = nm, percent_value = Fin 0,
               message = ''Error raised during instantiation: '' @ e\<rparr> warnings)
        | Inr obj \<Rightarrow>
            (case get_solution obj of
               Inl e \<Rightarrow>
                 Inr (Returned
                   \<lparr>name = nm, percent_value = Fin 0,
                    message = ''Error raised during test: '' @ e\<rparr> warnings)
             | Inr solution \<Rightarrow>
                 (case compute_score warnings constructor_input solution
                         (expected_solutions ! i) of
                    Inl e \<Rightarrow> Inl e
                  | Inr (score, warnings') \<Rightarrow>
                      run_loop nm cls_to_test get_solution expected_solutions warnings'
                        (scores @ [fmul score (Fin 100)]) (Suc i) rest)))"

text \<open>
  \<^verbatim>\<open>np.mean\<close> is numpy's; it is a parameter of the model. The result is returned
  together with the warning set the test case is left with.
\<close>

definition run ::
  "(fl list \<Rightarrow> fl) \<Rightarrow> string \<Rightarrow> (matrix \<Rightarrow> string + 'o) \<Rightarrow> ('o \<Rightarrow> string + int list) \<Rightarrow>
   matrix list \<Rightarrow> int list option list \<Rightarrow> string list \<Rightarrow> error + (TestResult \<times> string list)" where
  "run np_mean nm cls_to_test get_solution constructor_inputs expected_solutions warnings =
     (case run_loop nm cls_to_test get_solution expected_solutions warnings [] 0
             constructor_inputs of
        Inl e \<Rightarrow> Inl e
      | Inr (Returned result warnings') \<Rightarrow> Inr (result, warnings')
      | Inr (Completed scores warnings') \<Rightarrow>
          Inr (\<lparr>name = nm, percent_value = np_mean scores,
                message = (if warnings' \<noteq> [] then ''Warnings: '' @ join '' & '' warnings'
                           else [])\<rparr>,
               warnings'))"

section \<open>The reference solver: \<^verbatim>\<open>gen_best_solution\<close>\<close>

text \<open>
  An entry of \<^verbatim>\<open>methods\<close> is a name, a callable, or some other object. The
  argument itself is \<^verbatim>\<open>None\<close>, one name, or a sequence of entries.
\<close>

datatype 'f tsp_method = MStr string | MFunc 'f | MOther

datatype 'f methods_arg = MethodsNone | MethodsStr string | MethodsSeq "'f tsp_method list"

text \<open>
  What the model takes from networkx and numpy, which are not part of the repository:
  \<^item> \<open>nx_all\<close>: the names in \<^verbatim>\<open>nx_tsp_app.__all__\<close>;
  \<^item> \<open>nx_getattr\<close>: \<^verbatim>\<open>getattr(nx_tsp_app, s)\<close>, \<open>None\<close> when there is no such
    attribute, \<open>Some None\<close> when the attribute is not callable;
  \<^item> \<open>nx_tsp\<close>: \<^verbatim>\<open>traveling_salesman_problem(from_numpy_array(adj), weight, method)\<close>,
    which returns a cycle or raises;
  \<^item> \<open>func_name\<close>: \<^verbatim>\<open>f.__name__\<close>;
  \<^item> \<open>rand\<close>: the \<open>k\<close>-th sample of \<^verbatim>\<open>RandomState(seed).rand\<close>;
  \<^item> \<open>geo_pos\<close>, \<open>geo_edges\<close>: the positions and the edges of
    \<^verbatim>\<open>random_geometric_graph(n, radius=1.0, seed)\<close>;
  \<^item> \<open>hypot\<close>: \<^verbatim>\<open>np.hypot\<close>;
  \<^item> \<open>rs_randint\<close>, \<open>rs_choice\<close>: the draws of the master generator of
    \<^verbatim>\<open>gen_dataset\<close> for the \<open>i\<close>-th record.
\<close>

record 'f env =
  nx_all :: "string list"
  nx_getattr :: "string \<Rightarrow> 'f option option"
  nx_tsp :: "'f \<Rightarrow> matrix \<Rightarrow> error + int list"
  func_name :: "'f \<Rightarrow> string"
  rand :: "nat \<Rightarrow> nat \<Rightarrow> fl"
  geo_pos :: "nat \<Rightarrow> nat \<Rightarrow> nat \<Rightarrow> fl \<times> fl"
  geo_edges :: "nat \<Rightarrow> nat \<Rightarrow> (nat \<times> nat) list"
  hypot :: "fl \<Rightarrow> fl \<Rightarrow> fl"
  rs_randint :: "nat \<Rightarrow> nat \<Rightarrow> nat \<Rightarrow> nat \<Rightarrow> nat"
  rs_choice :: "nat \<Rightarrow> nat \<Rightarrow> nat \<Rightarrow> nat"

definition pnum_lt :: "pnum \<Rightarrow> pnum \<Rightarrow> bool" where
  "pnum_lt a b = fl_lt (pnum_val a) (pnum_val b)"

text \<open>The body of the \<^verbatim>\<open>try\<close> up to the comparison: the callable, its cycle, the cost.\<close>

definition attempt ::
  "('f, 'x) env_scheme \<Rightarrow> matrix \<Rightarrow> 'f tsp_method \<Rightarrow> error + ('f \<times> int list \<times> pnum)" where
  "attempt ext adjacency_matrix method =
     (case (case method of
              MStr s \<Rightarrow>
                (case nx_getattr ext s of
                   None \<Rightarrow> Inl AttributeError
                 | Some None \<Rightarrow> Inl AssertionError
                 | Some (Some f) \<Rightarrow> Inr f)
            | MFunc f \<Rightarrow> Inr f
            | MOther \<Rightarrow> Inl AssertionError) of
        Inl e \<Rightarrow> Inl e
      | Inr func \<Rightarrow>
          (case nx_tsp ext func adjacency_matrix of
             Inl e \<Rightarrow> Inl e
           | Inr cycle \<Rightarrow>
               (case get_path_cost adjacency_matrix cycle of
                  Inl e \<Rightarrow> Inl e
                | Inr cost \<Rightarrow> Inr (func, cycle, cost))))"

fun best_loop ::
  "('f, 'x) env_scheme \<Rightarrow> matrix \<Rightarrow> 'f tsp_method list \<Rightarrow>
   int list option \<times> pnum \<times> 'f option \<Rightarrow> int list option \<times> pnum \<times> 'f option" where
  "best_loop ext adjacency_matrix [] best = best"
| "best_loop ext adjacency_matrix (method # methods) (best_path, best_cost, best_method) =
     (case attempt ext adjacency_matrix method of
        Inl e \<Rightarrow> best_loop ext adjacency_matrix methods (best_path, best_cost, best_method)
      | Inr (func, cycle, cost) \<Rightarrow>
          if pnum_lt cost best_cost
          then best_loop ext adjacency_matrix methods (Some cycle, cost, Some func)
          else best_loop ext adjacency_matrix methods (best_path, best_cost, best_method))"

definition methods_list :: "('f, 'x) env_scheme \<Rightarrow> 'f methods_arg \<Rightarrow> 'f tsp_method list" where
  "methods_list ext methods =
     (case methods of
        MethodsNone \<Rightarrow> map MStr (nx_all ext)
      | MethodsStr s \<Rightarrow> [MStr s]
      | MethodsSeq ms \<Rightarrow> ms)"

definition gen_best_solution ::
  "('f, 'x) env_scheme \<Rightarrow> matrix \<Rightarrow> 'f methods_arg \<Rightarrow> int list option \<times> pnum \<times> 'f option" where
  "gen_best_solution ext adjacency_matrix methods =
     best_loop ext adjacency_matrix (methods_list ext methods) (None, PyFloat PInf, None)"


section \<open>The graph generators\<close>

text \<open>
  \<^verbatim>\<open>rn_state.rand(n, n)\<close> fills the matrix row by row from the generator's samples;
  \<^verbatim>\<open>adj + adj.T\<close> adds entry by entry; \<^verbatim>\<open>adj[np.diag_indices(n)] = v\<close>
  overwrites the entries \<open>(i, i)\<close> for \<open>i < n\<close>.
\<close>

definition rand_matrix :: "('f, 'x) env_scheme \<Rightarrow> nat \<Rightarrow> nat \<Rightarrow> matrix" where
  "rand_matrix ext n_nodes seed =
     map (\<lambda>i. map (\<lambda>j. rand ext seed (i * n_nodes + j)) [0..<n_nodes]) [0..<n_nodes]"

definition mat_T :: "matrix \<Rightarrow> matrix" where
  "mat_T a = map (\<lambda>j. map (\<lambda>r. r ! j) a) [0..<ncols a]"

definition mat_add :: "matrix \<Rightarrow> matrix \<Rightarrow> matrix" where
  "mat_add a b = map2 (map2 fadd) a b"

definition set_diag :: "nat \<Rightarrow> fl \<Rightarrow> matrix \<Rightarrow> matrix" where
  "set_diag n v a = map (\<lambda>i. if i < n then (a ! i)[i := v] else a ! i) [0..<length a]"

definition gen_complete_random_graph :: "('f, 'x) env_scheme \<Rightarrow> nat \<Rightarrow> nat \<Rightarrow> matrix" where
  "gen_complete_random_graph ext n_nodes seed =
     (let adj = rand_matrix ext n_nodes seed;
          adj = mat_add adj (mat_T adj)
      in set_diag n_nodes PInf adj)"

text \<open>
  A networkx undirected graph on the nodes \<open>0, \<dots>, n - 1\<close>: the number of nodes and the
  edges, each stored once under its ordered pair of end points with its
  \<^verbatim>\<open>weight\<close> attribute, if it has one. \<^verbatim>\<open>add_edge(u, v, weight=w)\<close> adds the
  edge or overwrites the weight of an existing one. \<^verbatim>\<open>to_numpy_array\<close> fills the
  matrix with \<^verbatim>\<open>nonedge\<close> and writes the weight of every edge at both of its
  positions, \<open>1\<close> for an edge without the attribute.
\<close>

type_synonym nx_graph = "nat \<times> ((nat \<times> nat) \<times> fl option) list"

definition edge_key :: "nat \<Rightarrow> nat \<Rightarrow> nat \<times> nat" where
  "edge_key u v = (min u v, max u v)"

definition add_edge :: "nx_graph \<Rightarrow> nat \<Rightarrow> nat \<Rightarrow> fl option \<Rightarrow> nx_graph" where
  "add_edge g u v w = (fst g, AList.update (edge_key u v) w (snd g))"

definition to_numpy_array :: "nx_graph \<Rightarrow> fl \<Rightarrow> matrix" where
  "to_numpy_array g nonedge =
     map (\<lambda>u. map (\<lambda>v. case map_of (snd g) (edge_key u v) of
                          None \<Rightarrow> nonedge
                        | Some None \<Rightarrow> Fin 1
                        | Some (Some w) \<Rightarrow> w) [0..<fst g]) [0..<fst g]"

definition random_geometric_graph :: "('f, 'x) env_scheme \<Rightarrow> nat \<Rightarrow> nat \<Rightarrow> nx_graph" where
  "random_geometric_graph ext n seed =
     foldl (\<lambda>g (u, v). add_edge g u v None) (n, []) (geo_edges ext n seed)"

fun fneg :: "fl \<Rightarrow> fl" where
  "fneg (Fin a) = Fin (- a)"
| "fneg PInf = NInf"
| "fneg NInf = PInf"
| "fneg NaN = NaN"

definition fsub :: "fl \<Rightarrow> fl \<Rightarrow> fl" where
  "fsub x y = fadd x (fneg y)"

text \<open>The pairs \<open>(i, j)\<close> of the two nested loops, in the order the loops visit them.\<close>

definition upper_pairs :: "nat \<Rightarrow> (nat \<times> nat) list" where
  "upper_pairs n = concat (map (\<lambda>i. map (\<lambda>j. (i, j)) [i + 1..<n]) [0..<n])"

definition gen_geometric_graph :: "('f, 'x) env_scheme \<Rightarrow> nat \<Rightarrow> nat \<Rightarrow> matrix" where
  "gen_geometric_graph ext n_nodes seed =
     (let graph = random_geometric_graph ext n_nodes seed;
          pos = geo_pos ext n_nodes seed;
          graph = foldl (\<lambda>g (i, j).
                    add_edge g i j
                      (Some (hypot ext (fsub (fst (pos i)) (fst (pos j)))
                                       (fsub (snd (pos i)) (snd (pos j))))))
                    graph (upper_pairs n_nodes)
      in to_numpy_array graph PInf)"

text \<open>A generation method is one of the two names or a callable of the caller's.\<close>

datatype graph_method = GStr string | GFunc "nat \<Rightarrow> nat \<Rightarrow> error + matrix"

definition gen_random_graph ::
  "('f, 'x) env_scheme \<Rightarrow> nat \<Rightarrow> nat \<Rightarrow> graph_method \<Rightarrow> error + matrix" where
  "gen_random_graph ext n_nodes seed method =
     (case method of
        GStr s \<Rightarrow>
          if s \<noteq> ''random'' \<and> s \<noteq> ''geometric'' then Inl ValueError
          else if s = ''random'' then Inr (gen_complete_random_graph ext n_nodes seed)
          else Inr (gen_geometric_graph ext n_nodes seed)
      | GFunc func \<Rightarrow> func n_nodes seed)"

section \<open>The dataset builder\<close>

record datum =
  d_adjacency_matrix :: matrix
  d_best_path :: "int list option"
  d_path_cost :: pnum
  d_seed :: nat
  d_graph_init_method :: graph_method
  d_tsp_method :: string

text \<open>
  The staging folder is the list of its entries, a file name with the record pickled into
  the file. Writing a file replaces the content of an entry of that name and adds an entry
  otherwise. \<^verbatim>\<open>gen_datum\<close> is given the file name inside the staging folder.
\<close>

type_synonym folder = "(string \<times> datum) list"

definition gen_datum ::
  "('f, 'x) env_scheme \<Rightarrow> nat \<Rightarrow> nat \<Rightarrow> graph_method \<Rightarrow> 'f methods_arg \<Rightarrow> string option \<Rightarrow>
   folder \<Rightarrow> error + (datum \<times> folder)" where
  "gen_datum ext n_nodes seed graph_init_method tsp_method save_path files =
     (case gen_random_graph ext n_nodes seed graph_init_method of
        Inl e \<Rightarrow> Inl e
      | Inr adjacency_matrix \<Rightarrow>
          (case gen_best_solution ext adjacency_matrix tsp_method of
             (cycle, cost, mth) \<Rightarrow>
               let d = \<lparr>d_adjacency_matrix = adjacency_matrix, d_best_path = cycle,
                        d_path_cost = cost, d_seed = seed,
                        d_graph_init_method = graph_init_method,
                        d_tsp_method = (case mth of Some f \<Rightarrow> func_name ext f
                                        | None \<Rightarrow> ''None'')\<rparr>
               in Inr (d, case save_path of
                            None \<Rightarrow> files
                          | Some p \<Rightarrow> AList.update p d files)))"

text \<open>The decimal digits of a number, as \<^verbatim>\<open>f"{k}"\<close> writes them.\<close>

fun str_nat :: "nat \<Rightarrow> string" where
  "str_nat k =
     (if k < 10 then [char_of (48 + k)]
      else str_nat (k div 10) @ [char_of (48 + k mod 10)])"

declare str_nat.simps [simp del]

text \<open>
  The arguments of the \<open>i\<close>-th task: the node count and the generation method drawn from
  the master generator, the index as the seed, and the file name. \<^verbatim>\<open>randint\<close>
  raises on an empty range and \<^verbatim>\<open>choice\<close> on an empty sequence.
\<close>

definition task_args ::
  "('f, 'x) env_scheme \<Rightarrow> nat \<Rightarrow> nat \<times> nat \<Rightarrow> graph_method list \<Rightarrow> nat \<Rightarrow> nat \<Rightarrow>
   error + (nat \<times> nat \<times> graph_method \<times> string)" where
  "task_args ext seed n_nodes_range gen_methods temp_start_idx i =
     (if snd n_nodes_range \<le> fst n_nodes_range then Inl ValueError
      else if gen_methods = [] then Inl ValueError
      else Inr (rs_randint ext seed i (fst n_nodes_range) (snd n_nodes_range), i,
                gen_methods ! (rs_choice ext seed i (length gen_methods) mod length gen_methods),
                str_nat (i + temp_start_idx) @ ''.pkl''))"

fun all_task_args ::
  "('f, 'x) env_scheme \<Rightarrow> nat \<Rightarrow> nat \<times> nat \<Rightarrow> graph_method list \<Rightarrow> nat \<Rightarrow> nat list \<Rightarrow>
   error + (nat \<times> nat \<times> graph_method \<times> string) list" where
  "all_task_args ext seed n_nodes_range gen_methods temp_start_idx [] = Inr []"
| "all_task_args ext seed n_nodes_range gen_methods temp_start_idx (i # is) =
     (case task_args ext seed n_nodes_range gen_methods temp_start_idx i of
        Inl e \<Rightarrow> Inl e
      | Inr a \<Rightarrow>
          (case all_task_args ext seed n_nodes_range gen_methods temp_start_idx is of
             Inl e \<Rightarrow> Inl e
           | Inr as \<Rightarrow> Inr (a # as)))"

text \<open>
  The tasks write files of different names, so the folder they leave does not depend on
  the order the worker pool runs them in; they are run in the order of the list. What the
  pool does with a task that raises is not in the repository: the run then ends with the
  error.
\<close>

fun run_tasks ::
  "('f, 'x) env_scheme \<Rightarrow> 'f methods_arg \<Rightarrow> (nat \<times> nat \<times> graph_method \<times> string) list \<Rightarrow>
   folder \<Rightarrow> error + folder" where
  "run_tasks ext tsp_methods [] files = Inr files"
| "run_tasks ext tsp_methods ((n_nodes, seed, graph_init_method, save_path) # rest) files =
     (case gen_datum ext n_nodes seed graph_init_method tsp_methods (Some save_path) files of
        Inl e \<Rightarrow> Inl e
      | Inr (d, files') \<Rightarrow> run_tasks ext tsp_methods rest files')"

text \<open>
  \<^verbatim>\<open>gather_all_data_from_temp_folder\<close> loads every file of the folder, in the order
  the folder lists them.
\<close>

definition gather_all_data_from_temp_folder :: "folder \<Rightarrow> datum list" where
  "gather_all_data_from_temp_folder files = map snd files"

text \<open>
  \<^verbatim>\<open>gen_dataset\<close>: the staging folder is \<open>None\<close> when it does not exist. The result
  is the folder after the run and the merged data.
\<close>

definition gen_dataset ::
  "('f, 'x) env_scheme \<Rightarrow> nat \<Rightarrow> nat \<times> nat \<Rightarrow> graph_method list \<Rightarrow> 'f methods_arg \<Rightarrow> nat \<Rightarrow>
   bool \<Rightarrow> folder option \<Rightarrow> error + (folder \<times> datum list)" where
  "gen_dataset ext n_data n_nodes_range gen_methods tsp_methods seed rm_temp_folder temp_folder =
     (let tsp_methods = (case tsp_methods of MethodsStr s \<Rightarrow> MethodsSeq [MStr s] | m \<Rightarrow> m);
          files = (case temp_folder of
                     None \<Rightarrow> []
                   | Some fs \<Rightarrow> if rm_temp_folder then [] else fs);
          temp_start_idx = length files
      in case all_task_args ext seed n_nodes_range gen_methods temp_start_idx [0..<n_data] of
           Inl e \<Rightarrow> Inl e
         | Inr args \<Rightarrow>
             (case run_tasks ext tsp_methods args files of
                Inl e \<Rightarrow> Inl e
              | Inr files' \<Rightarrow> Inr (files', gather_all_data_from_temp_folder files')))"

section \<open>Notions for stating the properties\<close>

text \<open>
  The finite binary64 numbers: a significand below \<open>2^53\<close> in magnitude, scaled by a power
  of two from \<open>2^-1074\<close> to \<open>2^971\<close>.
\<close>

definition is_double :: "real \<Rightarrow> bool" where
  "is_double x = (\<exists>m e. x = of_int m * 2 powi e \<and> \<bar>m\<bar> < 2 ^ 53 \<and> - 1074 \<le> e \<and> e \<le> 971)"

text \<open>The largest finite binary64 number.\<close>

definition max_double :: real where
  "max_double = (2 ^ 53 - 1) * 2 ^ 971"

text \<open>
  The weights a tour traverses, in order: the outcome of each lookup
  \<^verbatim>\<open>a[path[k], path[k + 1]]\<close>, a weight or the exception the lookup raises.
\<close>

definition lookups :: "ndarray \<Rightarrow> (int \<times> int) list \<Rightarrow> (error + fl) list" where
  "lookups a es = map (\<lambda>(i, j). getitem2 a i j) es"

text \<open>The graph of Scenario A, and a copy of it whose edge between 1 and 2 is NaN.\<close>

definition scenario_graph :: matrix where
  "scenario_graph = [[PInf, Fin 1, Fin 2], [Fin 1, PInf, Fin 3], [Fin 2, Fin 3, PInf]]"

definition nan_graph :: matrix where
  "nan_graph = [[PInf, Fin 1, Fin 2], [Fin 1, PInf, NaN], [Fin 2, NaN, PInf]]"

text \<open>
  A complete graph on four nodes: the edges of the ring \<open>0 - 1 - 2 - 3 - 0\<close> weigh \<open>p\<close>,
  the two diagonals weigh \<open>d\<close>. The tour \<open>[0, 1, 2, 3, 0]\<close> takes the four ring edges, the
  tour \<open>[0, 2, 1, 3, 0]\<close> the two diagonals and two ring edges.
\<close>

definition ring_graph :: "fl \<Rightarrow> fl \<Rightarrow> matrix" where
  "ring_graph p d =
     [[PInf, p, d, p], [p, PInf, p, d], [d, p, PInf, p], [p, d, p, PInf]]"

text \<open>
  A graph on four nodes in which the tour \<open>[0, 1, 2, 3, 0]\<close> costs \<open>2 * 2^-30\<close> and the
  tour \<open>[0, 2, 1, 3, 0]\<close> costs \<open>2 * 2^1000\<close>, every partial sum being a binary64
  number.
\<close>

definition steep_graph :: matrix where
  "steep_graph =
     [[PInf, Fin (1 / 2 ^ 30), Fin (2 ^ 1000), Fin 0],
      [Fin (1 / 2 ^ 30), PInf, Fin 0, Fin (2 ^ 1000)],
      [Fin (2 ^ 1000), Fin 0, PInf, Fin (1 / 2 ^ 30)],
      [Fin 0, Fin (2 ^ 1000), Fin (1 / 2 ^ 30), PInf]]"

text \<open>A weight so large that twice the weight overflows.\<close>

definition huge :: real where
  "huge = 2 ^ 1023"

text \<open>A method raises when the body of the \<^verbatim>\<open>try\<close> does not reach the comparison.\<close>

definition raises :: "('f, 'x) env_scheme \<Rightarrow> matrix \<Rightarrow> 'f tsp_method \<Rightarrow> bool" where
  "raises ext adjacency_matrix method =
     (case attempt ext adjacency_matrix method of Inl e \<Rightarrow> True | Inr r \<Rightarrow> False)"

text \<open>
  A concrete environment for the examples: three solvers that return fixed tours of the
  four-node ring graphs, the other functions simple ones within their contracts.
\<close>

definition demo_tsp :: "string \<Rightarrow> matrix \<Rightarrow> error + int list" where
  "demo_tsp f adj =
     (if f = ''christofides'' then Inr [0, 2, 1, 3, 0]
      else if f = ''greedy_tsp'' then Inr [0, 1, 2, 3, 0]
      else if f = ''simulated_annealing_tsp'' then Inr [0, 3, 2, 1, 0]
      else Inl (Exception ''no cycle''))"

text \<open>
  The larger of the two magnitudes: the distance of two points on a horizontal line, as the
  positions of the example environment are.
\<close>

fun demo_hypot :: "fl \<Rightarrow> fl \<Rightarrow> fl" where
  "demo_hypot (Fin a) (Fin b) = Fin (max \<bar>a\<bar> \<bar>b\<bar>)"
| "demo_hypot NaN y = NaN"
| "demo_hypot x NaN = NaN"
| "demo_hypot x y = PInf"

definition demo_env :: "string env" where
  "demo_env =
     \<lparr>nx_all = [''christofides'', ''greedy_tsp''],
      nx_getattr = (\<lambda>s. if s \<in> {''christofides'', ''greedy_tsp'', ''simulated_annealing_tsp'',
                                   ''threshold_accepting_tsp''} then Some (Some s)
                         else if s = ''math'' then Some None else None),
      nx_tsp = demo_tsp,
      func_name = (\<lambda>f. f),
      rand = (\<lambda>seed k. Fin (1 / 2 ^ (1 + seed + k))),
      geo_pos = (\<lambda>n seed v. (Fin (real v / 2 ^ n), Fin 0)),
      geo_edges = (\<lambda>n seed. [(0, 1)]),
      hypot = demo_hypot,
      rs_randint = (\<lambda>seed i lo hi. lo),
      rs_choice = (\<lambda>seed i n. i)\<rparr>"

text \<open>
  The edges of a networkx graph are well formed when no edge joins a node to itself and no
  weight is NaN.
\<close>

definition edges_ok :: "((nat \<times> nat) \<times> fl option) list \<Rightarrow> bool" where
  "edges_ok al = (\<forall>k w. map_of al k = Some w \<longrightarrow>
                    fst k \<noteq> snd k \<and> (\<forall>x. w = Some x \<longrightarrow> \<not> isnan x))"

text \<open>The graph \<^verbatim>\<open>gen_geometric_graph\<close> hands to \<^verbatim>\<open>to_numpy_array\<close>.\<close>

definition weighted_graph :: "('f, 'x) env_scheme \<Rightarrow> nat \<Rightarrow> nat \<Rightarrow> nx_graph" where
  "weighted_graph ext n seed =
     foldl (\<lambda>g (i, j).
             add_edge g i j
               (Some (hypot ext (fsub (fst (geo_pos ext n seed i)) (fst (geo_pos ext n seed j)))
                                (fsub (snd (geo_pos ext n seed i)) (snd (geo_pos ext n seed j))))))
       (random_geometric_graph ext n seed) (upper_pairs n)"

text \<open>
  A candidate that can only be constructed on three nodes and always answers the tour
  \<open>[0, 1, 2, 0]\<close>, and the arithmetic mean for \<^verbatim>\<open>np.mean\<close>.
\<close>

definition demo_cls :: "matrix \<Rightarrow> string + matrix" where
  "demo_cls m = (if length m = 3 then Inr m else Inl ''only three nodes'')"

definition demo_solve :: "matrix \<Rightarrow> string + int list" where
  "demo_solve m = Inr [0, 1, 2, 0]"

definition demo_mean :: "fl list \<Rightarrow> fl" where
  "demo_mean xs = fdiv (foldl fadd (Fin 0) xs) (Fin (real (length xs)))"

text \<open>
  The number a string of decimal digits denotes, the name of the staging file of index
  \<open>k\<close>, and the generation methods that \<^verbatim>\<open>gen_random_graph\<close> knows by name.
\<close>

definition nat_of_str :: "string \<Rightarrow> nat" where
  "nat_of_str s = foldl (\<lambda>a c. 10 * a + (of_char c - 48)) 0 s"

definition file_name :: "nat \<Rightarrow> string" where
  "file_name k = str_nat k @ ''.pkl''"

definition valid_method :: "graph_method \<Rightarrow> bool" where
  "valid_method g = (g = GStr ''random'' \<or> g = GStr ''geometric'')"

text \<open>The file names of a list of tasks.\<close>

definition task_paths :: "(nat \<times> nat \<times> graph_method \<times> string) list \<Rightarrow> string list" where
  "task_paths args = map (\<lambda>a. snd (snd (snd a))) args"

definition task_methods :: "(nat \<times> nat \<times> graph_method \<times> string) list \<Rightarrow> graph_method list" where
  "task_methods args = map (\<lambda>a. fst (snd (snd a))) args"

section \<open>Properties\<close>

lemma fadd_commute: "fadd x y = fadd y x"
  by (cases x; cases y) (simp_all add: add.commute)

subsection \<open>Rounding to binary64\<close>

lemma two_powi_pos [simp]: "0 < (2::real) powi k"
  by (simp add: zero_less_power_int)

lemma floor_log2_eq:
  assumes "0 < x"
  shows "\<lfloor>log 2 x\<rfloor> = k \<longleftrightarrow> 2 powi k \<le> x \<and> x < 2 powi (k + 1)"
  using floor_log_eq_powr_iff[of x 2 k] assms
    powr_real_of_int'[of 2 k] powr_real_of_int'[of 2 "k + 1"]
  by simp

lemma floor_log2_bounds:
  assumes "0 < x"
  shows "2 powi \<lfloor>log 2 x\<rfloor> \<le> x" and "x < 2 powi (\<lfloor>log 2 x\<rfloor> + 1)"
  using floor_log2_eq[OF assms, of "\<lfloor>log 2 x\<rfloor>"] by simp_all

lemma two_powi_mono: "a \<le> b \<Longrightarrow> (2::real) powi a \<le> 2 powi b"
  by (rule power_int_increasing) simp_all

lemma two_powi_strict_mono: "a < b \<Longrightarrow> (2::real) powi a < 2 powi b"
  by (rule power_int_strict_increasing) simp_all

lemma expo_ge: "- 1022 \<le> expo x"
  by (simp add: expo_def)

lemma expo_upper: 
  assumes "x \<noteq> 0" shows "\<bar>x\<bar> < 2 powi (expo x + 1)"
proof -
  from assms have p: "0 < \<bar>x\<bar>" by simp
  have "\<bar>x\<bar> < 2 powi (\<lfloor>log 2 \<bar>x\<bar>\<rfloor> + 1)" by (rule floor_log2_bounds(2)[OF p])
  also have "\<dots> \<le> 2 powi (expo x + 1)" by (rule two_powi_mono) (simp add: expo_def)
  finally show ?thesis .
qed

lemma expo_lower:
  assumes "x \<noteq> 0" shows "2 powi (expo x) \<le> \<bar>x\<bar> \<or> expo x = - 1022"
proof (cases "- 1022 \<le> \<lfloor>log 2 \<bar>x\<bar>\<rfloor>")
  case True
  then have "expo x = \<lfloor>log 2 \<bar>x\<bar>\<rfloor>" by (simp add: expo_def)
  with floor_log2_bounds(1)[of "\<bar>x\<bar>"] assms show ?thesis by simp
next
  case False
  then show ?thesis by (simp add: expo_def)
qed

lemma expo_normal:
  assumes "2 powi (- 1022) \<le> \<bar>x\<bar>"
  shows "2 powi (expo x) \<le> \<bar>x\<bar>"
proof -
  have p: "0 < \<bar>x\<bar>" using assms two_powi_pos[of "- 1022"] by linarith
  have "- 1022 \<le> \<lfloor>log 2 \<bar>x\<bar>\<rfloor>"
  proof (rule ccontr)
    assume "\<not> - 1022 \<le> \<lfloor>log 2 \<bar>x\<bar>\<rfloor>"
    then have "\<lfloor>log 2 \<bar>x\<bar>\<rfloor> + 1 \<le> - 1022" by linarith
    then have "(2::real) powi (\<lfloor>log 2 \<bar>x\<bar>\<rfloor> + 1) \<le> 2 powi (- 1022)" by (rule two_powi_mono)
    with floor_log2_bounds(2)[OF p] assms show False by linarith
  qed
  then have "expo x = \<lfloor>log 2 \<bar>x\<bar>\<rfloor>" by (simp add: expo_def)
  with floor_log2_bounds(1)[OF p] show ?thesis by simp
qed

lemma expo_at_least:
  assumes "2 powi k \<le> \<bar>x\<bar>" shows "k \<le> expo x"
proof (rule ccontr)
  assume "\<not> k \<le> expo x"
  then have "expo x + 1 \<le> k" by simp
  then have "(2::real) powi (expo x + 1) \<le> 2 powi k" by (rule two_powi_mono)
  moreover have "0 < \<bar>x\<bar>" using assms two_powi_pos[of k] by linarith
  then have "x \<noteq> 0" by auto
  ultimately show False using expo_upper[of x] assms by linarith
qed

lemma ulp_pos [simp]: "0 < ulp x"
  by (simp add: ulp_def)

lemma ulp_nonzero [simp]: "ulp x \<noteq> 0"
  by (simp add: ulp_def)

lemma ulp_nonneg [simp]: "0 \<le> ulp x"
  by (simp add: ulp_def)

lemma round_even_of_int [simp]: "round_even (of_int n) = n"
  by (simp add: round_even_def)

lemma round_even_cases: "round_even y = \<lfloor>y\<rfloor> \<or> round_even y = \<lfloor>y\<rfloor> + 1"
  by (simp add: round_even_def Let_def)

lemma round_even_up: "round_even y = \<lfloor>y\<rfloor> + 1 \<Longrightarrow> 1 / 2 \<le> y - of_int \<lfloor>y\<rfloor>"
  by (simp add: round_even_def Let_def split: if_splits)

lemma round_even_down: "round_even y = \<lfloor>y\<rfloor> \<Longrightarrow> y - of_int \<lfloor>y\<rfloor> \<le> 1 / 2"
  by (simp add: round_even_def Let_def split: if_splits)

lemma round_even_ge: 
  assumes "of_int n \<le> y" shows "n \<le> round_even y"
proof -
  from assms have "n \<le> \<lfloor>y\<rfloor>" by (simp add: le_floor_iff)
  with round_even_cases[of y] show ?thesis by linarith
qed

lemma round_even_le:
  assumes "y \<le> of_int n" shows "round_even y \<le> n"
proof -
  have f: "\<lfloor>y\<rfloor> \<le> n" using assms by (simp add: floor_le_iff)
  from round_even_cases[of y] show ?thesis
  proof
    assume "round_even y = \<lfloor>y\<rfloor>"
    with f show ?thesis by simp
  next
    assume u: "round_even y = \<lfloor>y\<rfloor> + 1"
    from round_even_up[OF u] have "of_int \<lfloor>y\<rfloor> < y" by linarith
    with assms have "real_of_int \<lfloor>y\<rfloor> < of_int n" by linarith
    then have "\<lfloor>y\<rfloor> < n" by simp
    with u show ?thesis by simp
  qed
qed

lemma round_even_above_half:
  assumes "of_int n + 1 / 2 < y" shows "n + 1 \<le> round_even y"
proof -
  from assms have "of_int n \<le> y" by linarith
  then have f: "n \<le> \<lfloor>y\<rfloor>" by (simp add: le_floor_iff)
  from round_even_cases[of y] show ?thesis
  proof
    assume d: "round_even y = \<lfloor>y\<rfloor>"
    from round_even_down[OF d] assms have "real_of_int n < of_int \<lfloor>y\<rfloor>" by linarith
    then have "n < \<lfloor>y\<rfloor>" by simp
    with d show ?thesis by simp
  next
    assume "round_even y = \<lfloor>y\<rfloor> + 1"
    with f show ?thesis by simp
  qed
qed


lemma is_doubleI:
  "x = of_int m * 2 powi e \<Longrightarrow> \<bar>m\<bar> < 2 ^ 53 \<Longrightarrow> - 1074 \<le> e \<Longrightarrow> e \<le> 971 \<Longrightarrow> is_double x"
  unfolding is_double_def by blast

text \<open>A binary64 number is a whole number of units in its last place.\<close>

lemma double_scaled_int:
  assumes "x = of_int m * 2 powi e" and "\<bar>m\<bar> < 2 ^ 53" and "- 1074 \<le> e" and "x \<noteq> 0"
  shows "x / ulp x = of_int (m * 2 ^ nat (e - (expo x - 52)))" and "expo x - 52 \<le> e"
proof -
  have m0: "m \<noteq> 0" using assms(1,4) by auto
  show le: "expo x - 52 \<le> e"
  proof (rule ccontr)
    assume "\<not> expo x - 52 \<le> e"
    then have e: "e + 53 \<le> expo x" by simp
    have "\<bar>x\<bar> = of_int \<bar>m\<bar> * 2 powi e" using assms(1) by (simp add: abs_mult)
    also have "\<dots> < 2 ^ 53 * 2 powi e"
      using assms(2) by (intro mult_strict_right_mono) (simp_all flip: of_int_less_iff)
    also have "\<dots> = 2 powi (e + 53)" by (simp add: power_int_add)
    also have "\<dots> \<le> 2 powi (expo x)" using e by (rule two_powi_mono)
    finally have lt: "\<bar>x\<bar> < 2 powi (expo x)" .
    from expo_lower[OF assms(4)] lt have "expo x = - 1022" by linarith
    with e assms(3) show False by simp
  qed
  then have n: "0 \<le> e - (expo x - 52)" by simp
  have "x / ulp x = of_int m * (2 powi e / 2 powi (expo x - 52))"
    by (simp add: assms(1) ulp_def)
  also have "2 powi e / (2::real) powi (expo x - 52) = 2 powi (e - (expo x - 52))"
    by (simp add: power_int_diff)
  also have "\<dots> = 2 ^ nat (e - (expo x - 52))"
    using n by (simp add: power_int_nonneg_exp)
  finally show "x / ulp x = of_int (m * 2 ^ nat (e - (expo x - 52)))" by simp
qed

lemma double_magnitude:
  fixes x :: real
  assumes "x = of_int m * 2 powi e" and "\<bar>m\<bar> < 2 ^ 53" and "e \<le> 971"
  shows "\<bar>x\<bar> < 2 ^ 1024"
proof -
  have "\<bar>x\<bar> = of_int \<bar>m\<bar> * 2 powi e" using assms(1) by (simp add: abs_mult)
  also have "\<dots> < 2 ^ 53 * 2 powi e"
    using assms(2) by (intro mult_strict_right_mono) (simp_all flip: of_int_less_iff)
  also have "\<dots> \<le> 2 ^ 53 * 2 powi 971"
    using two_powi_mono[OF assms(3)] by simp
  also have "\<dots> = 2 ^ 1024" by simp
  finally show ?thesis .
qed

lemma rnd_double:
  assumes "is_double x" shows "rnd x = Fin x"
proof (cases "x = 0")
  case True
  then show ?thesis by (simp add: rnd_def)
next
  case False
  from assms obtain m e where
    x: "x = of_int m * 2 powi e" "\<bar>m\<bar> < 2 ^ 53" "- 1074 \<le> e" "e \<le> 971"
    unfolding is_double_def by blast
  from double_scaled_int(1)[OF x(1,2,3) False]
  have "of_int (round_even (x / ulp x)) * ulp x = x / ulp x * ulp x"
    by (simp only: round_even_of_int)
  also have "\<dots> = x" by simp
  finally have y: "rounded x = x" unfolding rounded_def .
  from double_magnitude[OF x(1,2,4)] have "\<not> 2 ^ 1024 \<le> x" "\<not> x \<le> - (2 ^ 1024)" by linarith+
  with False y show ?thesis by (simp add: rnd_def)
qed

lemma rnd_not_nan [simp]: "rnd x \<noteq> NaN"
  by (simp add: rnd_def)



lemma two_powi_53: "(2::real) powi (expo x + 1) / ulp x = 2 ^ 53"
proof -
  have "(2::real) powi (expo x + 1) / ulp x = 2 powi ((expo x + 1) - (expo x - 52))"
    unfolding ulp_def by (subst power_int_diff) simp_all
  then show ?thesis by simp
qed

lemma two_powi_52: "(2::real) powi (expo x) / ulp x = 2 ^ 52"
proof -
  have "(2::real) powi (expo x) / ulp x = 2 powi (expo x - (expo x - 52))"
    unfolding ulp_def by (subst power_int_diff) simp_all
  then show ?thesis by simp
qed

lemma scaled_lt:
  assumes "x \<noteq> 0" shows "\<bar>x / ulp x\<bar> < 2 ^ 53"
proof -
  have "\<bar>x / ulp x\<bar> = \<bar>x\<bar> / ulp x" by (simp add: abs_divide)
  also have "\<dots> < 2 powi (expo x + 1) / ulp x"
    by (rule divide_strict_right_mono[OF expo_upper[OF assms] ulp_pos])
  finally show ?thesis by (simp only: two_powi_53)
qed

lemma scaled_ge_pos:
  assumes "0 < x" and "2 powi (expo x) \<le> x" shows "2 ^ 52 \<le> x / ulp x"
proof -
  have "2 powi (expo x) / ulp x \<le> x / ulp x"
    by (rule divide_right_mono[OF assms(2) ulp_nonneg])
  then show ?thesis by (simp only: two_powi_52)
qed

lemma rounded_ge_pos:
  assumes "0 < x" and "2 powi (expo x) \<le> x" shows "2 powi (expo x) \<le> rounded x"
proof -
  from scaled_ge_pos[OF assms] have "of_int (2 ^ 52) \<le> x / ulp x" by simp
  then have "2 ^ 52 \<le> round_even (x / ulp x)" by (rule round_even_ge)
  then have "real_of_int (2 ^ 52) \<le> of_int (round_even (x / ulp x))"
    by (simp only: of_int_le_iff)
  then have "(2::real) ^ 52 \<le> of_int (round_even (x / ulp x))" by simp
  then have "2 ^ 52 * ulp x \<le> rounded x"
    unfolding rounded_def by (rule mult_right_mono[OF _ ulp_nonneg])
  moreover have "2 ^ 52 * ulp x = 2 powi (expo x)"
    using two_powi_52[of x] by (simp add: field_simps)
  ultimately show ?thesis by simp
qed

lemma rounded_le_neg:
  assumes "x < 0" and "2 powi (expo x) \<le> - x" shows "rounded x \<le> - (2 powi (expo x))"
proof -
  have "2 powi (expo x) / ulp x \<le> (- x) / ulp x"
    by (rule divide_right_mono[OF assms(2) ulp_nonneg])
  then have "2 ^ 52 \<le> (- x) / ulp x" by (simp only: two_powi_52)
  then have "x / ulp x \<le> - (2 ^ 52)" by simp
  then have "x / ulp x \<le> of_int (- (2 ^ 52))" by simp
  then have "round_even (x / ulp x) \<le> - (2 ^ 52)" by (rule round_even_le)
  then have "real_of_int (round_even (x / ulp x)) \<le> of_int (- (2 ^ 52))"
    by (simp only: of_int_le_iff)
  then have "of_int (round_even (x / ulp x)) \<le> - ((2::real) ^ 52)" by simp
  then have "rounded x \<le> - (2 ^ 52) * ulp x"
    unfolding rounded_def by (rule mult_right_mono[OF _ ulp_nonneg])
  moreover have "2 ^ 52 * ulp x = 2 powi (expo x)"
    using two_powi_52[of x] by (simp add: field_simps)
  ultimately show ?thesis by simp
qed

lemma rnd_overflow:
  assumes "2 ^ 1024 \<le> x" shows "rnd x = PInf"
proof -
  have big: "(0::real) < 2 ^ 1024" by (rule zero_less_power) simp
  with assms have p: "0 < x" by linarith
  have e1024: "(2::real) powi 1024 = 2 ^ 1024" by simp
  have "(2::real) powi 1024 \<le> \<bar>x\<bar>" unfolding e1024 using assms p by linarith
  then have e: "1024 \<le> expo x" by (rule expo_at_least)
  have "(2::real) powi (- 1022) \<le> 2 powi 1024" by (rule two_powi_mono) simp
  with assms p have "2 powi (- 1022) \<le> \<bar>x\<bar>" unfolding e1024 by linarith
  from expo_normal[OF this] p have n: "2 powi (expo x) \<le> x" by linarith
  from rounded_ge_pos[OF p n] two_powi_mono[OF e]
  have "2 ^ 1024 \<le> rounded x" unfolding e1024 by linarith
  moreover from p have "x \<noteq> 0" by simp
  ultimately show ?thesis by (simp only: rnd_def if_True if_False)
qed



lemma is_double_zero: "is_double 0"
  by (rule is_doubleI[of _ 0 0]) simp_all

lemma expo_le_1023:
  assumes "x \<noteq> 0" and "\<not> 2 ^ 1024 \<le> rounded x" and "\<not> rounded x \<le> - (2 ^ 1024)"
  shows "expo x \<le> 1023"
proof (rule ccontr)
  assume "\<not> expo x \<le> 1023"
  then have e: "1024 \<le> expo x" by simp
  then have "expo x \<noteq> - 1022" by simp
  with expo_lower[OF assms(1)] have n: "2 powi (expo x) \<le> \<bar>x\<bar>" by simp
  have big: "(2::real) ^ 1024 \<le> 2 powi (expo x)" using two_powi_mono[OF e] by simp
  show False
  proof (cases "0 < x")
    case True
    with n have "2 powi expo x \<le> x" by simp
    from rounded_ge_pos[OF True this] big assms(2) show False by linarith
  next
    case False
    with assms(1) have neg: "x < 0" by simp
    with n have "2 powi expo x \<le> - x" by simp
    from rounded_le_neg[OF neg this] big assms(3) show False by linarith
  qed
qed

lemma round_even_abs_le:
  assumes "\<bar>y\<bar> \<le> of_int n" shows "\<bar>round_even y\<bar> \<le> n"
proof -
  from assms have a: "y \<le> of_int n" and b: "of_int (- n) \<le> y" by simp_all
  from a have "round_even y \<le> n" by (rule round_even_le)
  moreover from b have "- n \<le> round_even y" by (rule round_even_ge)
  ultimately show ?thesis by linarith
qed

lemma two_powi_double: "2 * (2::real) powi k = 2 powi (k + 1)"
  by (simp add: power_int_add)

lemma rnd_range:
  assumes "rnd x = Fin y" shows "is_double y"
proof (cases "x = 0")
  case True
  with assms have "y = 0" by (simp add: rnd_def)
  then show ?thesis using is_double_zero by simp
next
  case False
  from assms False have nb: "\<not> 2 ^ 1024 \<le> rounded x" "\<not> rounded x \<le> - (2 ^ 1024)"
    and y: "y = rounded x"
    by (simp_all add: rnd_def split: if_splits)
  define n where "n = round_even (x / ulp x)"
  have yn: "y = of_int n * 2 powi (expo x - 52)" by (simp add: y rounded_def n_def ulp_def)
  from expo_le_1023[OF False nb] have e: "expo x \<le> 1023" .
  from scaled_lt[OF False] have "\<bar>x / ulp x\<bar> \<le> of_int (2 ^ 53)" by simp
  then have nle: "\<bar>n\<bar> \<le> 2 ^ 53" unfolding n_def by (rule round_even_abs_le)
  show ?thesis
  proof (cases "\<bar>n\<bar> < 2 ^ 53")
    case True
    show ?thesis by (rule is_doubleI[OF yn True]) (use e expo_ge[of x] in simp_all)
  next
    case F2: False
    define m :: int where "m = (if 0 \<le> n then 2 ^ 52 else - (2 ^ 52))"
    from F2 nle have "\<bar>n\<bar> = 2 ^ 53" by linarith
    then have nm: "n = 2 * m" by (cases "0 \<le> n") (simp_all add: m_def)
    have m: "\<bar>m\<bar> < 2 ^ 53" unfolding m_def by simp
    have "y = of_int m * (2 * 2 powi (expo x - 52))" by (simp add: yn nm)
    also have "2 * (2::real) powi (expo x - 52) = 2 powi (expo x - 51)"
      by (simp add: two_powi_double)
    finally have ym: "y = of_int m * 2 powi (expo x - 51)" .
    have "expo x \<noteq> 1023"
    proof
      assume "expo x = 1023"
      with ym have "y = of_int m * 2 ^ 972" by simp
      then have "y = 2 ^ 1024 \<or> y = - (2 ^ 1024)" unfolding m_def by (simp split: if_splits)
      with nb y show False by auto
    qed
    with e have "expo x - 51 \<le> 971" by simp
    moreover have "- 1074 \<le> expo x - 51" using expo_ge[of x] by simp
    ultimately show ?thesis using ym m by (intro is_doubleI[of y m "expo x - 51"])
  qed
qed

lemma two_powi_split:
  assumes "e0 \<le> e" shows "(2::real) powi e = 2 ^ nat (e - e0) * 2 powi e0"
proof -
  have "(2::real) powi e = 2 powi ((e - e0) + e0)" by simp
  also have "\<dots> = 2 powi (e - e0) * 2 powi e0" by (rule power_int_add) simp
  also have "(2::real) powi (e - e0) = 2 ^ nat (e - e0)"
    using assms by (simp add: power_int_nonneg_exp)
  finally show ?thesis .
qed

text \<open>Two distinct positive binary64 numbers differ by more than one part in \<open>2^53\<close>.\<close>

lemma double_gap:
  assumes "is_double c" and "is_double r" and "0 < c" and "c < r"
  shows "1 + 1 / 2 ^ 53 < r / c"
proof -
  from assms(1) obtain mc ec where c: "c = of_int mc * 2 powi ec" "\<bar>mc\<bar> < 2 ^ 53"
    unfolding is_double_def by blast
  from assms(2) obtain mr er where r: "r = of_int mr * 2 powi er" "\<bar>mr\<bar> < 2 ^ 53"
    unfolding is_double_def by blast
  define e0 where "e0 = min ec er"
  define kc where "kc = mc * 2 ^ nat (ec - e0)"
  define kr where "kr = mr * 2 ^ nat (er - e0)"
  have le: "e0 \<le> ec" "e0 \<le> er" by (simp_all add: e0_def)
  have ckc: "c = of_int kc * 2 powi e0"
    unfolding kc_def c(1) by (subst two_powi_split[OF le(1)]) simp
  have rkr: "r = of_int kr * 2 powi e0"
    unfolding kr_def r(1) by (subst two_powi_split[OF le(2)]) simp
  have kc_pos: "0 < kc"
  proof -
    from assms(3) ckc have "0 < real_of_int kc * 2 powi e0" by simp
    then have "0 < real_of_int kc" by (rule zero_less_mult_pos2[OF _ two_powi_pos])
    then show ?thesis by simp
  qed
  have lt: "kc < kr"
  proof -
    from assms(4) ckc rkr have "real_of_int kc * 2 powi e0 < of_int kr * 2 powi e0" by simp
    then have "real_of_int kc < of_int kr" by simp
    then show ?thesis by simp
  qed
  have small: "kc < 2 ^ 53"
  proof (cases "ec \<le> er")
    case True
    then have "e0 = ec" by (simp add: e0_def)
    then have "kc = mc" by (simp add: kc_def)
    with c(2) show ?thesis by simp
  next
    case False
    then have "e0 = er" by (simp add: e0_def)
    then have "kr = mr" by (simp add: kr_def)
    with r(2) lt show ?thesis by simp
  qed
  have q: "r / c = of_int kr / of_int kc" by (simp add: ckc rkr)
  from lt have "kc + 1 \<le> kr" by simp
  then have "real_of_int (kc + 1) \<le> of_int kr" by (simp only: of_int_le_iff)
  then have k1: "real_of_int kc + 1 \<le> of_int kr" by simp
  from kc_pos have kp: "0 < real_of_int kc" by simp
  from small have "real_of_int kc < of_int (2 ^ 53)" by (simp only: of_int_less_iff)
  then have ks: "real_of_int kc < 2 ^ 53" by simp
  have "1 + 1 / 2 ^ 53 < 1 + 1 / real_of_int kc"
    using kp ks by (simp add: frac_less2)
  also have "\<dots> = (real_of_int kc + 1) / of_int kc" using kp by (simp add: field_simps)
  also have "\<dots> \<le> of_int kr / of_int kc" using k1 kp by (simp add: divide_right_mono)
  finally show ?thesis by (simp only: q)
qed

lemma rnd_above_one:
  assumes "1 + 1 / 2 ^ 53 < x"
  shows "rnd x = PInf \<or> (\<exists>q. rnd x = Fin q \<and> 1 < q)"
proof -
  from assms have x1: "1 < x" and xp: "0 < x" and x0: "x \<noteq> 0"
    by (simp_all add: add_pos_pos less_imp_neq[symmetric] order_less_trans[of 1 "1 + 1 / 2 ^ 53"]
        order_less_trans[of 0 "1 + 1 / 2 ^ 53"])
  have "(2::real) powi 0 \<le> \<bar>x\<bar>" using x1 by simp
  then have e0: "0 \<le> expo x" by (rule expo_at_least)
  have "(2::real) powi (- 1022) \<le> 2 powi 0" by (rule two_powi_mono) simp
  with x1 have "(2::real) powi (- 1022) \<le> \<bar>x\<bar>" by simp
  from expo_normal[OF this] xp have n: "2 powi (expo x) \<le> x" by simp
  have r1: "1 < rounded x"
  proof (cases "expo x = 0")
    case True
    then have u: "ulp x = 1 / 2 ^ 52" by (simp add: ulp_def power_int_minus field_simps)
    have "x / ulp x = x * 2 ^ 52" by (simp add: u)
    moreover from assms have "(1 + 1 / 2 ^ 53) * 2 ^ 52 < x * (2 ^ 52 :: real)" by simp
    ultimately have "of_int (2 ^ 52) + 1 / 2 < x / ulp x" by simp
    then have "2 ^ 52 + 1 \<le> round_even (x / ulp x)" by (rule round_even_above_half)
    then have "real_of_int (2 ^ 52 + 1) \<le> of_int (round_even (x / ulp x))"
      by (simp only: of_int_le_iff)
    then have "(2 ^ 52 + 1) * (1 / 2 ^ 52) \<le> of_int (round_even (x / ulp x)) * (1 / (2 ^ 52 :: real))"
      by simp
    then show ?thesis unfolding rounded_def u by simp
  next
    case False
    with e0 have "1 \<le> expo x" by simp
    from two_powi_mono[OF this] have "(2::real) \<le> 2 powi (expo x)" by simp
    with rounded_ge_pos[OF xp n] show ?thesis by linarith
  qed
  then have "\<not> rounded x \<le> - (2 ^ 1024)" by simp
  with x0 r1 show ?thesis by (simp add: rnd_def)
qed

lemma rnd_one: "rnd 1 = Fin 1"
  by (rule rnd_double, rule is_doubleI[of _ 1 0]) simp_all

text \<open>Numbers with few bits are binary64 numbers, and operations on them are exact.\<close>

lemma rnd_million:
  assumes "x * 2 ^ 30 \<in> \<int>" and "\<bar>x\<bar> \<le> 1000000"
  shows "rnd x = Fin x"
proof -
  from assms(1) obtain m where m: "x * 2 ^ 30 = of_int m" by (auto elim: Ints_cases)
  then have x: "x = of_int m * 2 powi (- 30)" by (simp add: power_int_minus field_simps)
  have "\<bar>x * 2 ^ 30\<bar> \<le> 1000000 * 2 ^ 30" using assms(2) by (simp add: abs_mult)
  with m have "\<bar>real_of_int m\<bar> < of_int (2 ^ 53)" by simp
  then have "\<bar>m\<bar> < 2 ^ 53" by linarith
  with x show ?thesis by (intro rnd_double is_doubleI[of x m "- 30"]) simp_all
qed

lemma rnd_large:
  assumes "x / 2 ^ 971 \<in> \<int>" and "\<bar>x\<bar> < 2 ^ 1024"
  shows "rnd x = Fin x"
proof -
  from assms(1) obtain m where m: "x / 2 ^ 971 = of_int m" by (auto elim: Ints_cases)
  then have x: "x = of_int m * 2 powi 971" by (simp add: field_simps)
  have "\<bar>x / 2 ^ 971\<bar> < 2 ^ 1024 / 2 ^ 971" using assms(2) by (simp add: divide_strict_right_mono)
  with m have "\<bar>real_of_int m\<bar> < of_int (2 ^ 53)" by simp
  then have "\<bar>m\<bar> < 2 ^ 53" by linarith
  with x show ?thesis by (intro rnd_double is_doubleI[of x m 971]) simp_all
qed

lemma expo_eq:
  assumes "2 powi e \<le> \<bar>x\<bar>" and "\<bar>x\<bar> < 2 powi (e + 1)" and "- 1022 \<le> e"
  shows "expo x = e"
proof -
  from assms(1) two_powi_pos[of e] have "0 < \<bar>x\<bar>" by linarith
  with floor_log2_eq[of "\<bar>x\<bar>" e] assms(1,2) have "\<lfloor>log 2 \<bar>x\<bar>\<rfloor> = e" by simp
  with assms(3) show ?thesis by (simp add: expo_def)
qed

lemma round_even_below_half:
  assumes "y < of_int n + 1 / 2" shows "round_even y \<le> n"
proof -
  from round_even_cases[of y] show ?thesis
  proof
    assume d: "round_even y = \<lfloor>y\<rfloor>"
    have "of_int \<lfloor>y\<rfloor> \<le> y" by simp
    with assms have "real_of_int \<lfloor>y\<rfloor> < of_int n + 1" by linarith
    then have "real_of_int \<lfloor>y\<rfloor> < of_int (n + 1)" by simp
    then have "\<lfloor>y\<rfloor> < n + 1" by (simp only: of_int_less_iff)
    with d show ?thesis by simp
  next
    assume u: "round_even y = \<lfloor>y\<rfloor> + 1"
    from round_even_up[OF u] assms have "real_of_int \<lfloor>y\<rfloor> < of_int n" by linarith
    then have "\<lfloor>y\<rfloor> < n" by (simp only: of_int_less_iff)
    with u show ?thesis by simp
  qed
qed

lemma round_even_near:
  assumes "\<bar>y - of_int n\<bar> < 1 / 2" shows "round_even y = n"
proof -
  from assms have a: "y < of_int n + 1 / 2" by linarith
  from assms have "real_of_int n - 1 + 1 / 2 < y" by linarith
  then have b: "of_int (n - 1) + 1 / 2 < y" by simp
  from round_even_below_half[OF a] round_even_above_half[OF b] show ?thesis by simp
qed

text \<open>
  Rounding a number of the binade \<open>[2^e, 2^(e + 1))\<close>: the nearest multiple of
  \<open>2^(e - 52)\<close>.
\<close>

lemma rnd_near:
  assumes "2 powi e \<le> \<bar>x\<bar>" and "\<bar>x\<bar> < 2 powi (e + 1)" and "- 1022 \<le> e"
    and "\<bar>x / 2 powi (e - 52) - of_int n\<bar> < 1 / 2"
    and "\<bar>of_int n * 2 powi (e - 52)\<bar> < (2::real) ^ 1024"
  shows "rnd x = Fin (of_int n * 2 powi (e - 52))"
proof -
  have x0: "x \<noteq> 0"
  proof
    assume "x = 0"
    with assms(1) have "2 powi e \<le> (0::real)" by simp
    with two_powi_pos[of e] show False by linarith
  qed
  have e: "expo x = e" by (rule expo_eq[OF assms(1,2,3)])
  then have u: "ulp x = 2 powi (e - 52)" by (simp add: ulp_def)
  have "round_even (x / ulp x) = n" unfolding u by (rule round_even_near[OF assms(4)])
  then have r: "rounded x = of_int n * 2 powi (e - 52)" by (simp add: rounded_def u)
  from assms(5) have "\<not> 2 ^ 1024 \<le> of_int n * (2::real) powi (e - 52)"
    "\<not> of_int n * (2::real) powi (e - 52) \<le> - (2 ^ 1024)" by linarith+
  with x0 r show ?thesis by (simp add: rnd_def)
qed

text \<open>The quotient \<open>4 / 3\<close> is not a binary64 number: it is rounded down.\<close>

lemma rnd_four_thirds: "rnd (4 / 3) = Fin (6004799503160661 / 2 ^ 52)"
proof -
  have "rnd (4 / 3) = Fin (of_int 6004799503160661 * 2 powi (0 - 52))"
    by (rule rnd_near) simp_all
  then show ?thesis by (simp add: power_int_minus field_simps)
qed

text \<open>
  Adding a quarter of a unit in the last place to the largest number does not overflow, and
  neither does adding it twice: each sum is rounded back.
\<close>

lemma rnd_max_plus: "rnd (max_double + 2 ^ 969) = Fin max_double"
proof -
  have "rnd (max_double + 2 ^ 969) = Fin (of_int (2 ^ 53 - 1) * 2 powi (1023 - 52))"
    by (rule rnd_near) (simp_all add: max_double_def)
  then show ?thesis by (simp add: max_double_def)
qed

lemma chained_sum_finite:
  "fadd (fadd (Fin max_double) (Fin (2 ^ 969))) (Fin (2 ^ 969)) = Fin max_double"
proof -
  have "fadd (fadd (Fin max_double) (Fin (2 ^ 969))) (Fin (2 ^ 969))
      = fadd (rnd (max_double + 2 ^ 969)) (Fin (2 ^ 969))"
    by (simp only: fadd.simps)
  also have "\<dots> = rnd (max_double + 2 ^ 969)"
    by (simp only: rnd_max_plus fadd.simps)
  finally show ?thesis by (simp only: rnd_max_plus)
qed

subsection \<open>Arrays\<close>

lemma squeeze_Arr2: "length g \<noteq> 1 \<Longrightarrow> ncols g \<noteq> 1 \<Longrightarrow> asarray_squeeze g = Arr2 g"
  by (simp add: asarray_squeeze_def)

lemma lookups_Nil [simp]: "lookups a [] = []"
  by (simp add: lookups_def)

lemma lookups_Cons [simp]: "lookups a ((i, j) # es) = getitem2 a i j # lookups a es"
  by (simp add: lookups_def)

lemma lookups_split:
  "lookups a es = xs @ ys \<Longrightarrow>
   \<exists>es1 es2. es = es1 @ es2 \<and> lookups a es1 = xs \<and> lookups a es2 = ys"
  unfolding lookups_def by (auto simp: map_eq_append_conv)

lemma getitem2_Arr0: "getitem2 (Arr0 x) i j \<noteq> Inr w"
  by (simp add: getitem2_def split: option.splits)

text \<open>
  A lookup fails with \<^verbatim>\<open>IndexError\<close> or \<^verbatim>\<open>OverflowError\<close>, the latter exactly when
  the first index that does not fit a C \<^verbatim>\<open>long\<close> lies from \<open>2^63\<close> to \<open>2^64 - 1\<close>.
\<close>

lemma getitem2_error:
  assumes "getitem2 a i j = Inl e"
  shows "e = IndexError \<or> e = OverflowError"
    and "(e = OverflowError) =
         (2 ^ 63 \<le> i \<and> i < 2 ^ 64 \<or> - (2 ^ 63) \<le> i \<and> i < 2 ^ 63 \<and> 2 ^ 63 \<le> j \<and> j < 2 ^ 64)"
  using assms
  by (auto simp: getitem2_def index_error_def
      split: option.splits if_splits ndarray.splits)

text \<open>A lookup that succeeds has both indices within their axes.\<close>

lemma getitem2_in_range:
  assumes "getitem2 (Arr2 g) i j = Inr w"
  shows "- int (length g) \<le> i \<and> i < int (length g) \<and> - int (ncols g) \<le> j \<and> j < int (ncols g)"
  using assms
  by (auto simp: getitem2_def norm_index_def split: option.splits if_splits)

lemma lookups_length: "lookups a es = map Inr ws \<Longrightarrow> length es = length ws"
  unfolding lookups_def by (drule arg_cong[where f = length]) simp

lemmas eval_defs = asarray_squeeze_def ncols_def edges_def norm_index_def index_error_def
  getitem2_def iadd_def lookups_def

subsection \<open>The path cost\<close>

lemma pnum_val_iadd: "pnum_val (foldl iadd c ws) = foldl fadd (pnum_val c) ws"
  by (induction ws arbitrary: c) (simp_all add: iadd_def)

lemma path_cost_loop_prefix:
  "lookups a es1 = map Inr ws \<Longrightarrow> \<forall>w\<in>set ws. \<not> isnan w \<Longrightarrow>
   path_cost_loop a (es1 @ es2) c = path_cost_loop a es2 (foldl iadd c ws)"
proof (induction es1 arbitrary: ws c)
  case Nil
  then show ?case by simp
next
  case (Cons e es1)
  obtain i j where e: "e = (i, j)" by (cases e)
  from Cons.prems e obtain w ws' where
    ws: "ws = w # ws'" "getitem2 a i j = Inr w" "lookups a es1 = map Inr ws'"
    by (cases ws) auto
  with Cons.prems Cons.IH[of ws' "iadd c w"] e show ?case by simp
qed

text \<open>
  C3, as the code has it. On a matrix that \<^verbatim>\<open>squeeze\<close> leaves two-dimensional, let
  the lookups of the tour succeed with weights \<open>ws\<close>, none of them NaN, up to some point.
  If that point is the end of the tour, \<^verbatim>\<open>get_path_cost\<close> returns the sum of the
  weights, added from left to right starting from \<open>0\<close>. If the next weight is NaN, it
  returns \<open>+infinity\<close>, whatever the position and whatever follows. If the next lookup
  fails, the call raises the exception of the lookup: \<^verbatim>\<open>OverflowError\<close> when the first
  of its two indices that does not fit a C \<^verbatim>\<open>long\<close> lies from \<open>2^63\<close> to
  \<open>2^64 - 1\<close>, \<^verbatim>\<open>IndexError\<close> otherwise.
\<close>

theorem get_path_cost_nan_or_sum:
  assumes "length g \<noteq> 1" and "ncols g \<noteq> 1"
    and "lookups (Arr2 g) (edges path) = map Inr ws @ rest"
    and "\<forall>w\<in>set ws. \<not> isnan w"
  shows "(rest = [] \<longrightarrow>
            (\<exists>c. get_path_cost g path = Inr c \<and> pnum_val c = foldl fadd (Fin 0) ws))
       \<and> (\<forall>more. rest = Inr NaN # more \<longrightarrow> get_path_cost g path = Inr (PyFloat PInf))
       \<and> (\<forall>e more. rest = Inl e # more \<longrightarrow>
            get_path_cost g path = Inl e \<and> (e = IndexError \<or> e = OverflowError)
            \<and> (\<forall>i j. edges path ! length ws = (i, j) \<longrightarrow>
                 (e = OverflowError) =
                 (2 ^ 63 \<le> i \<and> i < 2 ^ 64
                  \<or> - (2 ^ 63) \<le> i \<and> i < 2 ^ 63 \<and> 2 ^ 63 \<le> j \<and> j < 2 ^ 64)))"
proof -
  from lookups_split[OF assms(3)] obtain es1 es2 where
    es: "edges path = es1 @ es2" "lookups (Arr2 g) es1 = map Inr ws"
      "lookups (Arr2 g) es2 = rest"
    by blast
  have gp: "get_path_cost g path = path_cost_loop (Arr2 g) es2 (foldl iadd (PyInt 0) ws)"
    unfolding get_path_cost_def squeeze_Arr2[OF assms(1,2)] es(1)
    by (rule path_cost_loop_prefix[OF es(2) assms(4)])
  have a: "rest = [] \<longrightarrow>
      (\<exists>c. get_path_cost g path = Inr c \<and> pnum_val c = foldl fadd (Fin 0) ws)"
  proof
    assume "rest = []"
    with es(3) have "es2 = []" by (simp add: lookups_def)
    with gp show "\<exists>c. get_path_cost g path = Inr c \<and> pnum_val c = foldl fadd (Fin 0) ws"
      by (simp add: pnum_val_iadd)
  qed
  have b: "\<forall>more. rest = Inr NaN # more \<longrightarrow> get_path_cost g path = Inr (PyFloat PInf)"
  proof (intro allI impI)
    fix more assume "rest = Inr NaN # more"
    with es(3) obtain i j es' where "es2 = (i, j) # es'" "getitem2 (Arr2 g) i j = Inr NaN"
      by (cases es2) (auto simp: lookups_def)
    with gp show "get_path_cost g path = Inr (PyFloat PInf)" by simp
  qed
  have c: "\<forall>e more. rest = Inl e # more \<longrightarrow>
            get_path_cost g path = Inl e \<and> (e = IndexError \<or> e = OverflowError)
            \<and> (\<forall>i j. edges path ! length ws = (i, j) \<longrightarrow>
                 (e = OverflowError) =
                 (2 ^ 63 \<le> i \<and> i < 2 ^ 64
                  \<or> - (2 ^ 63) \<le> i \<and> i < 2 ^ 63 \<and> 2 ^ 63 \<le> j \<and> j < 2 ^ 64))"
  proof (intro allI impI)
    fix e more assume "rest = Inl e # more"
    with es(3) obtain i j es' where f: "es2 = (i, j) # es'" "getitem2 (Arr2 g) i j = Inl e"
      by (cases es2) (auto simp: lookups_def)
    from lookups_length[OF es(2)] es(1) f(1) have at: "edges path ! length ws = (i, j)"
      by (simp add: nth_append)
    from gp f have "get_path_cost g path = Inl e" by simp
    with getitem2_error[OF f(2)] at
    show "get_path_cost g path = Inl e \<and> (e = IndexError \<or> e = OverflowError)
            \<and> (\<forall>i j. edges path ! length ws = (i, j) \<longrightarrow>
                 (e = OverflowError) =
                 (2 ^ 63 \<le> i \<and> i < 2 ^ 64
                  \<or> - (2 ^ 63) \<le> i \<and> i < 2 ^ 63 \<and> 2 ^ 63 \<le> j \<and> j < 2 ^ 64))"
      by simp
  qed
  from a b c show ?thesis by blast
qed

lemma nan_graph_lookups:
  "lookups (Arr2 nan_graph) (edges [0, 1, 2, 0]) = map Inr [Fin 1] @ [Inr NaN, Inr (Fin 2)]"
  by (simp add: nan_graph_def eval_defs)

lemma nan_graph_lookups_long:
  "lookups (Arr2 nan_graph) (edges [0, 1, 2 ^ 63, 0])
     = map Inr [Fin 1] @ [Inl OverflowError, Inl OverflowError]"
  by (simp add: nan_graph_def eval_defs)

theorem get_path_cost_nan_or_sum_witness:
  "length nan_graph \<noteq> 1 \<and> ncols nan_graph \<noteq> 1 \<and> \<not> isnan (Fin 1)
   \<and> get_path_cost nan_graph [0, 1, 2, 0] = Inr (PyFloat PInf)
   \<and> get_path_cost nan_graph [0, 1, 2 ^ 63, 0] = Inl OverflowError"
  using get_path_cost_nan_or_sum[of nan_graph "[0, 1, 2, 0]" "[Fin 1]" "[Inr NaN, Inr (Fin 2)]"]
    get_path_cost_nan_or_sum[of nan_graph "[0, 1, 2 ^ 63, 0]" "[Fin 1]"
      "[Inl OverflowError, Inl OverflowError]"]
    nan_graph_lookups nan_graph_lookups_long
  by (simp add: nan_graph_def ncols_def)

text \<open>
  C3 as stated fails: the tour \<open>[0, 5, 1, 2]\<close> traverses the edge from 1 to 2, whose weight
  is NaN, and the call raises on the first lookup instead of returning \<open>+infinity\<close>.
\<close>

theorem get_path_cost_counterexample:
  "getitem2 (asarray_squeeze nan_graph) 1 2 = Inr NaN
   \<and> get_path_cost nan_graph [0, 5, 1, 2] = Inl IndexError"
  by (simp add: nan_graph_def get_path_cost_def eval_defs)

subsection \<open>The Hamiltonian-cycle check\<close>

lemma hamiltonian_loop_prefix:
  "lookups a es1 = map Inr ws \<Longrightarrow> \<forall>w\<in>set ws. isfinite w \<Longrightarrow>
   hamiltonian_loop a (es1 @ es2) = hamiltonian_loop a es2"
proof (induction es1 arbitrary: ws)
  case Nil
  then show ?case by simp
next
  case (Cons e es1)
  obtain i j where e: "e = (i, j)" by (cases e)
  from Cons.prems e obtain w ws' where
    ws: "ws = w # ws'" "getitem2 a i j = Inr w" "lookups a es1 = map Inr ws'"
    by (cases ws) auto
  from Cons.prems ws have "isfinite w" by simp
  then have "\<not> isnan w" "\<not> isinf w" by (cases w; simp)+
  with Cons.prems Cons.IH[of ws'] e ws \<open>isfinite w\<close> show ?case by simp
qed

text \<open>
  C2, as the code has it. On a matrix with \<open>n\<close> rows that \<^verbatim>\<open>squeeze\<close> leaves
  two-dimensional, \<^verbatim>\<open>is_hamiltonian_cycle\<close> returns false when the tour has not
  \<open>n + 1\<close> entries, or its first and last entries differ, or its first \<open>n\<close> entries have
  not exactly \<open>n\<close> distinct values. Otherwise, let the lookups of the tour succeed with
  finite weights \<open>ws\<close> up to some point: at the end of the tour the result is true; if the
  next weight is NaN or infinite the result is false; if the next lookup fails the call
  raises the exception of the lookup: \<^verbatim>\<open>OverflowError\<close> when the first of its two
  indices that does not fit a C \<^verbatim>\<open>long\<close> lies from \<open>2^63\<close> to \<open>2^64 - 1\<close>,
  \<^verbatim>\<open>IndexError\<close> otherwise.
\<close>

theorem is_hamiltonian_cycle_cases:
  assumes "length g \<noteq> 1" and "ncols g \<noteq> 1"
    and "lookups (Arr2 g) (edges path) = map Inr ws @ rest"
    and "\<forall>w\<in>set ws. isfinite w"
  shows "(length path \<noteq> length g + 1 \<or> hd path \<noteq> last path
            \<or> card (set (butlast path)) \<noteq> length g \<longrightarrow>
          is_hamiltonian_cycle g path = Inr False)
       \<and> (length path = length g + 1 \<and> hd path = last path
            \<and> card (set (butlast path)) = length g \<longrightarrow>
            (rest = [] \<longrightarrow> is_hamiltonian_cycle g path = Inr True)
          \<and> (\<forall>w more. rest = Inr w # more \<and> \<not> isfinite w \<longrightarrow>
               is_hamiltonian_cycle g path = Inr False)
          \<and> (\<forall>e more. rest = Inl e # more \<longrightarrow>
               is_hamiltonian_cycle g path = Inl e \<and> (e = IndexError \<or> e = OverflowError)
               \<and> (\<forall>i j. edges path ! length ws = (i, j) \<longrightarrow>
                    (e = OverflowError) =
                    (2 ^ 63 \<le> i \<and> i < 2 ^ 64
                     \<or> - (2 ^ 63) \<le> i \<and> i < 2 ^ 63 \<and> 2 ^ 63 \<le> j \<and> j < 2 ^ 64))))"
proof -
  from lookups_split[OF assms(3)] obtain es1 es2 where
    es: "edges path = es1 @ es2" "lookups (Arr2 g) es1 = map Inr ws"
      "lookups (Arr2 g) es2 = rest"
    by blast
  have loop: "hamiltonian_loop (Arr2 g) (edges path) = hamiltonian_loop (Arr2 g) es2"
    unfolding es(1) by (rule hamiltonian_loop_prefix[OF es(2) assms(4)])
  have sq: "asarray_squeeze g = Arr2 g" by (rule squeeze_Arr2[OF assms(1,2)])
  have bad: "length path \<noteq> length g + 1 \<or> hd path \<noteq> last path
      \<or> card (set (butlast path)) \<noteq> length g \<longrightarrow> is_hamiltonian_cycle g path = Inr False"
    by (auto simp: is_hamiltonian_cycle_def sq length_remdups_card_conv)
  have good: "is_hamiltonian_cycle g path = hamiltonian_loop (Arr2 g) es2"
    if "length path = length g + 1" "hd path = last path" "card (set (butlast path)) = length g"
    using that loop by (simp add: is_hamiltonian_cycle_def sq length_remdups_card_conv)
  have a: "rest = [] \<longrightarrow> hamiltonian_loop (Arr2 g) es2 = Inr True"
    using es(3) by (auto simp: lookups_def)
  have b: "\<forall>w more. rest = Inr w # more \<and> \<not> isfinite w \<longrightarrow>
      hamiltonian_loop (Arr2 g) es2 = Inr False"
  proof (intro allI impI)
    fix w more assume r: "rest = Inr w # more \<and> \<not> isfinite w"
    with es(3) obtain i j es' where "es2 = (i, j) # es'" "getitem2 (Arr2 g) i j = Inr w"
      by (cases es2) (auto simp: lookups_def)
    with r show "hamiltonian_loop (Arr2 g) es2 = Inr False" by simp
  qed
  have c: "\<forall>e more. rest = Inl e # more \<longrightarrow>
               hamiltonian_loop (Arr2 g) es2 = Inl e \<and> (e = IndexError \<or> e = OverflowError)
               \<and> (\<forall>i j. edges path ! length ws = (i, j) \<longrightarrow>
                    (e = OverflowError) =
                    (2 ^ 63 \<le> i \<and> i < 2 ^ 64
                     \<or> - (2 ^ 63) \<le> i \<and> i < 2 ^ 63 \<and> 2 ^ 63 \<le> j \<and> j < 2 ^ 64))"
  proof (intro allI impI)
    fix e more assume "rest = Inl e # more"
    with es(3) obtain i j es' where f: "es2 = (i, j) # es'" "getitem2 (Arr2 g) i j = Inl e"
      by (cases es2) (auto simp: lookups_def)
    from lookups_length[OF es(2)] es(1) f(1) have at: "edges path ! length ws = (i, j)"
      by (simp add: nth_append)
    from f have "hamiltonian_loop (Arr2 g) es2 = Inl e" by simp
    with getitem2_error[OF f(2)] at
    show "hamiltonian_loop (Arr2 g) es2 = Inl e \<and> (e = IndexError \<or> e = OverflowError)
               \<and> (\<forall>i j. edges path ! length ws = (i, j) \<longrightarrow>
                    (e = OverflowError) =
                    (2 ^ 63 \<le> i \<and> i < 2 ^ 64
                     \<or> - (2 ^ 63) \<le> i \<and> i < 2 ^ 63 \<and> 2 ^ 63 \<le> j \<and> j < 2 ^ 64))"
      by simp
  qed
  show ?thesis
  proof (intro conjI impI)
    assume "length path \<noteq> length g + 1 \<or> hd path \<noteq> last path
      \<or> card (set (butlast path)) \<noteq> length g"
    with bad show "is_hamiltonian_cycle g path = Inr False" by blast
  next
    assume h: "length path = length g + 1 \<and> hd path = last path
      \<and> card (set (butlast path)) = length g"
    then have eq: "is_hamiltonian_cycle g path = hamiltonian_loop (Arr2 g) es2"
      using good by blast
    {
      assume "rest = []"
      with a eq show "is_hamiltonian_cycle g path = Inr True" by simp
    }
    from b show "\<forall>w more. rest = Inr w # more \<and> \<not> isfinite w \<longrightarrow>
               is_hamiltonian_cycle g path = Inr False"
      unfolding eq .
    from c show "\<forall>e more. rest = Inl e # more \<longrightarrow>
               is_hamiltonian_cycle g path = Inl e \<and> (e = IndexError \<or> e = OverflowError)
               \<and> (\<forall>i j. edges path ! length ws = (i, j) \<longrightarrow>
                    (e = OverflowError) =
                    (2 ^ 63 \<le> i \<and> i < 2 ^ 64
                     \<or> - (2 ^ 63) \<le> i \<and> i < 2 ^ 63 \<and> 2 ^ 63 \<le> j \<and> j < 2 ^ 64))"
      unfolding eq .
  qed
qed

lemma scenario_lookups:
  "lookups (Arr2 scenario_graph) (edges [0, 1, 2, 0]) = map Inr [Fin 1, Fin 3, Fin 2] @ []"
  by (simp add: scenario_graph_def eval_defs)

lemma scenario_lookups_short:
  "lookups (Arr2 scenario_graph) (edges [0, 1, 0]) = map Inr [Fin 1, Fin 1] @ []"
  by (simp add: scenario_graph_def eval_defs)

lemma scenario_lookups_long:
  "lookups (Arr2 scenario_graph) (edges [0, 1, 2 ^ 63, 0])
     = map Inr [Fin 1] @ [Inl OverflowError, Inl OverflowError]"
  by (simp add: scenario_graph_def eval_defs)

theorem is_hamiltonian_cycle_cases_witness:
  "is_hamiltonian_cycle scenario_graph [0, 1, 2, 0] = Inr True
   \<and> is_hamiltonian_cycle scenario_graph [0, 1, 0] = Inr False
   \<and> is_hamiltonian_cycle scenario_graph [0, 1, 2 ^ 63, 0] = Inl OverflowError"
proof -
  have g: "length scenario_graph \<noteq> 1" "ncols scenario_graph \<noteq> 1" "length scenario_graph = 3"
    by (simp_all add: scenario_graph_def ncols_def)
  have f: "\<forall>w\<in>set [Fin 1, Fin 3, Fin 2]. isfinite w" "\<forall>w\<in>set [Fin 1, Fin 1]. isfinite w"
    by simp_all
  have c: "card (set (butlast [0, 1, 2, 0 :: int])) = 3" by simp
  from is_hamiltonian_cycle_cases[OF g(1,2) scenario_lookups f(1)] g(3) c
  have "is_hamiltonian_cycle scenario_graph [0, 1, 2, 0] = Inr True" by simp
  moreover from is_hamiltonian_cycle_cases[OF g(1,2) scenario_lookups_short f(2)] g(3)
  have "is_hamiltonian_cycle scenario_graph [0, 1, 0] = Inr False" by simp
  moreover have f1: "\<forall>w\<in>set [Fin 1]. isfinite w" by simp
  have c': "card (set (butlast [0, 1, 2 ^ 63, 0 :: int])) = 3" by simp
  from is_hamiltonian_cycle_cases[OF g(1,2) scenario_lookups_long f1] g(3) c'
  have "is_hamiltonian_cycle scenario_graph [0, 1, 2 ^ 63, 0] = Inl OverflowError" by simp
  ultimately show ?thesis by simp
qed

text \<open>
  C2 as stated fails: the tour \<open>[0, 1, 5, 0]\<close> on the three-node graph of Scenario A meets
  none of the four conditions that make the result false, and the call does not return true:
  it raises on the lookup of the edge from 1 to 5.
\<close>

theorem is_hamiltonian_cycle_counterexample:
  "length [0, 1, 5, 0 :: int] = length scenario_graph + 1
   \<and> hd [0, 1, 5, 0 :: int] = last [0, 1, 5, 0]
   \<and> card (set (butlast [0, 1, 5, 0 :: int])) = length scenario_graph
   \<and> is_hamiltonian_cycle scenario_graph [0, 1, 5, 0] = Inl IndexError"
  by (simp add: is_hamiltonian_cycle_def scenario_graph_def eval_defs)

text \<open>
  C9: on a graph with \<open>n\<close> nodes, a tour of \<open>n + 1\<close> entries that ends where it starts and
  whose first \<open>n\<close> entries are \<open>n\<close> distinct values, but not the values \<open>0, \<dots>, n - 1\<close>,
  is accepted whenever its lookups succeed with finite weights. Negative entries are such
  values: numpy counts them from the end of the axis.
\<close>

theorem out_of_range_tour_accepted:
  assumes "length g = n" and "ncols g = n"
    and "length path = n + 1" and "hd path = last path"
    and "card (set (butlast path)) = n"
    and "set (butlast path) \<noteq> {0..<int n}"
    and "lookups (asarray_squeeze g) (edges path) = map Inr ws"
    and "\<forall>w\<in>set ws. isfinite w"
  shows "is_hamiltonian_cycle g path = Inr True"
proof (cases "n = 1")
  case True
  with assms(1,2) have "asarray_squeeze g = Arr0 (hd (hd g))" by (simp add: asarray_squeeze_def)
  moreover from True assms(3) obtain x y where "path = [x, y]"
    by (cases path; cases "tl path") auto
  ultimately show ?thesis using assms(7) by (cases ws) (simp_all add: edges_def getitem2_Arr0)
next
  case False
  with assms(1,2) have sq: "asarray_squeeze g = Arr2 g" by (simp add: asarray_squeeze_def)
  have "hamiltonian_loop (Arr2 g) (edges path @ []) = hamiltonian_loop (Arr2 g) []"
    using assms(7,8) unfolding sq by (rule hamiltonian_loop_prefix)
  with assms(1,3,4,5) show ?thesis
    by (simp add: is_hamiltonian_cycle_def sq length_remdups_card_conv)
qed

theorem out_of_range_tour_accepted_witness:
  "set (butlast [0, -1, -2, 0]) \<noteq> {0..<int 3}
   \<and> lookups (asarray_squeeze scenario_graph) (edges [0, -1, -2, 0]) = map Inr [Fin 2, Fin 3, Fin 1]
   \<and> is_hamiltonian_cycle scenario_graph [0, -1, -2, 0] = Inr True"
proof -
  have l: "lookups (asarray_squeeze scenario_graph) (edges [0, -1, -2, 0]) = map Inr [Fin 2, Fin 3, Fin 1]"
    by (simp add: scenario_graph_def eval_defs)
  have "(- 1 :: int) \<in> set (butlast [0, -1, -2, 0])" by simp
  moreover have "(- 1 :: int) \<notin> {0..<int 3}" by simp
  ultimately have s: "set (butlast [0, -1, -2, 0]) \<noteq> {0..<int 3}" by metis
  have c: "card (set (butlast [0, -1, -2, 0 :: int])) = 3" by simp
  from out_of_range_tour_accepted[of scenario_graph 3 "[0, -1, -2, 0]" "[Fin 2, Fin 3, Fin 1]"] l s c
  show ?thesis by (simp add: scenario_graph_def ncols_def)
qed

subsection \<open>The score\<close>

lemma hamiltonian_loop_True:
  "hamiltonian_loop a es = Inr True \<Longrightarrow>
   \<exists>ws. lookups a es = map Inr ws \<and> (\<forall>w\<in>set ws. isfinite w)"
proof (induction es)
  case Nil
  then show ?case by simp
next
  case (Cons e es)
  obtain i j where e: "e = (i, j)" by (cases e)
  from Cons.prems e obtain w where w: "getitem2 a i j = Inr w" "isfinite w"
    "hamiltonian_loop a es = Inr True"
    by (auto split: sum.splits if_splits)
  from Cons.IH[OF w(3)] obtain ws where "lookups a es = map Inr ws" "\<forall>w\<in>set ws. isfinite w"
    by blast
  with w e have "lookups a (e # es) = map Inr (w # ws) \<and> (\<forall>w\<in>set (w # ws). isfinite w)"
    by simp
  then show ?case by blast
qed

lemma isfinite_not_nan: "isfinite w \<Longrightarrow> \<not> isnan w"
  by (cases w) simp_all

lemma path_cost_loop_all:
  assumes "lookups a es = map Inr ws" and "\<forall>w\<in>set ws. \<not> isnan w"
  shows "path_cost_loop a es c = Inr (foldl iadd c ws)"
  using path_cost_loop_prefix[OF assms, of "[]" c] by simp

lemma is_numpy_foldl_iadd: "ws \<noteq> [] \<Longrightarrow> is_numpy (foldl iadd c ws)"
  by (cases ws rule: rev_cases) (simp_all add: iadd_def)

lemma path_cost_loop_kind:
  "path_cost_loop a es c = Inr r \<Longrightarrow> r = c \<or> r = PyFloat PInf \<or> is_numpy r"
proof (induction es arbitrary: c)
  case Nil
  then show ?case by simp
next
  case (Cons e es)
  obtain i j where e: "e = (i, j)" by (cases e)
  from Cons.prems e obtain w where w: "getitem2 a i j = Inr w"
    by (auto split: sum.splits)
  show ?case
  proof (cases "isnan w")
    case True
    with Cons.prems e w show ?thesis by simp
  next
    case False
    with Cons.prems e w have "path_cost_loop a es (iadd c w) = Inr r" by simp
    from Cons.IH[OF this] show ?thesis by (auto simp: iadd_def)
  qed
qed

lemma get_path_cost_kind:
  "get_path_cost g p = Inr r \<Longrightarrow> r = PyInt 0 \<or> r = PyFloat PInf \<or> is_numpy r"
  unfolding get_path_cost_def by (rule path_cost_loop_kind)

text \<open>A finite sum of two weights is a binary64 number, and so is a finite path cost.\<close>

lemma fadd_double: "fadd x y = Fin v \<Longrightarrow> is_double v"
  by (cases x; cases y) (simp_all add: rnd_range)

lemma path_cost_loop_double:
  "path_cost_loop a es c = Inr r \<Longrightarrow>
   r = c \<or> r = PyFloat PInf \<or> (\<forall>v. pnum_val r = Fin v \<longrightarrow> is_double v)"
proof (induction es arbitrary: c)
  case Nil
  then show ?case by simp
next
  case (Cons e es)
  obtain i j where e: "e = (i, j)" by (cases e)
  from Cons.prems e obtain w where w: "getitem2 a i j = Inr w"
    by (auto split: sum.splits)
  show ?case
  proof (cases "isnan w")
    case True
    with Cons.prems e w show ?thesis by simp
  next
    case False
    with Cons.prems e w have "path_cost_loop a es (iadd c w) = Inr r" by simp
    from Cons.IH[OF this] show ?thesis by (auto simp: iadd_def dest: fadd_double)
  qed
qed

lemma get_path_cost_double:
  assumes "get_path_cost g p = Inr r" and "pnum_val r = Fin v"
  shows "is_double v"
proof -
  from path_cost_loop_double[OF assms(1)[unfolded get_path_cost_def]]
  have "r = PyInt 0 \<or> r = PyFloat PInf \<or> (\<forall>v. pnum_val r = Fin v \<longrightarrow> is_double v)" .
  with assms(2) show ?thesis using is_double_zero by auto
qed

lemma length_edges: "length (edges p) = length p - 1"
  by (simp add: edges_def)

text \<open>What an accepted tour gives: the node count, the length, and finite weights.\<close>

lemma is_hamiltonian_cycle_True:
  assumes "is_hamiltonian_cycle g sol = Inr True"
  shows "\<exists>n ws. shape0 (asarray_squeeze g) = Inr n \<and> length sol = n + 1
           \<and> lookups (asarray_squeeze g) (edges sol) = map Inr ws
           \<and> (\<forall>w\<in>set ws. isfinite w) \<and> length ws = n"
proof -
  from assms obtain n where n: "shape0 (asarray_squeeze g) = Inr n" "length sol = n + 1"
    "hamiltonian_loop (asarray_squeeze g) (edges sol) = Inr True"
    by (auto simp: is_hamiltonian_cycle_def Let_def split: sum.splits if_splits)
  from hamiltonian_loop_True[OF n(3)] obtain ws where
    ws: "lookups (asarray_squeeze g) (edges sol) = map Inr ws" "\<forall>w\<in>set ws. isfinite w"
    by blast
  from ws(1) have "length ws = length (edges sol)"
    by (metis length_map lookups_def)
  with n(2) have "length ws = n" by (simp add: length_edges)
  with n ws show ?thesis by blast
qed

lemma accepted_cost:
  assumes "is_hamiltonian_cycle g sol = Inr True"
  shows "\<exists>ws. (\<forall>w\<in>set ws. isfinite w) \<and> length ws + 1 = length sol
           \<and> get_path_cost g sol = Inr (foldl iadd (PyInt 0) ws)"
proof -
  from is_hamiltonian_cycle_True[OF assms] obtain n ws where
    h: "length sol = n + 1" "lookups (asarray_squeeze g) (edges sol) = map Inr ws"
      "\<forall>w\<in>set ws. isfinite w" "length ws = n"
    by blast
  from h(3) have "\<forall>w\<in>set ws. \<not> isnan w" by (simp add: isfinite_not_nan)
  from path_cost_loop_all[OF h(2) this] h show ?thesis
    unfolding get_path_cost_def by auto
qed

lemma shape0_zero_no_lookup: "shape0 a = Inr 0 \<Longrightarrow> \<exists>e. getitem2 a i j = Inl e"
  by (cases a) (auto simp: getitem2_def norm_index_def split: option.splits)

lemma path_cost_loop_no_lookup:
  assumes "\<forall>i j. \<exists>e. getitem2 a i j = Inl e" and "path_cost_loop a es c = Inr r"
  shows "r = c"
proof (cases es)
  case Nil
  with assms(2) show ?thesis by simp
next
  case (Cons x es')
  obtain i j where x: "x = (i, j)" by (cases x)
  from assms(1) obtain e where "getitem2 a i j = Inl e" by blast
  with assms(2) Cons x show ?thesis by simp
qed

lemma sanitized_self_ratio: "nan_to_num (fdiv x x) (Fin 1) (Fin 0) (Fin 0) = Fin 1"
  by (cases x) (simp_all add: rnd_one)

lemma square_accepted_numpy:
  assumes "is_hamiltonian_cycle g sol = Inr True" and "g \<noteq> []" and "ncols g = length g"
    and "get_path_cost g sol = Inr oc"
  shows "is_numpy oc"
proof -
  from is_hamiltonian_cycle_True[OF assms(1)] obtain n ws where
    h: "shape0 (asarray_squeeze g) = Inr n" "length sol = n + 1"
      "lookups (asarray_squeeze g) (edges sol) = map Inr ws"
      "\<forall>w\<in>set ws. isfinite w" "length ws = n"
    by blast
  from assms(2,3) h(1) have "n = length g" "length g \<noteq> 1"
    by (auto simp: asarray_squeeze_def split: if_splits)
  with assms(2) h(5) have "ws \<noteq> []" by auto
  from h(4) have "\<forall>w\<in>set ws. \<not> isnan w" by (simp add: isfinite_not_nan)
  from path_cost_loop_all[OF h(3) this] assms(4)
  have "oc = foldl iadd (PyInt 0) ws" unfolding get_path_cost_def by simp
  with \<open>ws \<noteq> []\<close> show ?thesis by (simp add: is_numpy_foldl_iadd)
qed

text \<open>
  C1, as the code has it. \<^verbatim>\<open>compute_score\<close> returns \<open>0.0\<close> (and records the
  warning) when the candidate tour is rejected. When the tour is accepted and both path
  costs and their quotient are computed, it returns the quotient of the reference cost by
  the candidate cost with NaN replaced by \<open>1.0\<close> and either infinity by \<open>0.0\<close>, and
  nothing clamps it from above. On a square, non-empty matrix equal costs give exactly
  \<open>1.0\<close>. A candidate cost that is positive and below a finite reference cost gives the
  binary64 quotient itself, which exceeds \<open>1.0\<close>, unless the quotient overflows to
  \<open>+infinity\<close>: then the score is \<open>0.0\<close>.
\<close>

theorem compute_score_cases:
  "(is_hamiltonian_cycle g sol = Inr False \<longrightarrow>
      compute_score w g sol t = Inr (Fin 0, List.insert not_hamiltonian_warning w))
   \<and> (is_hamiltonian_cycle g sol = Inr True \<and> get_path_cost g sol = Inr oc
        \<and> get_path_cost g tt = Inr tc \<and> py_truediv tc oc = Inr ratio \<longrightarrow>
      compute_score w g sol (Some tt) = Inr (nan_to_num ratio (Fin 1) (Fin 0) (Fin 0), w))
   \<and> (is_hamiltonian_cycle g sol = Inr True \<and> g \<noteq> [] \<and> ncols g = length g
        \<and> get_path_cost g sol = Inr oc \<and> get_path_cost g tt = Inr tc
        \<and> pnum_val tc = pnum_val oc \<longrightarrow>
      compute_score w g sol (Some tt) = Inr (Fin 1, w))
   \<and> (is_hamiltonian_cycle g sol = Inr True \<and> get_path_cost g sol = Inr oc
        \<and> get_path_cost g tt = Inr tc \<and> pnum_val oc = Fin c \<and> pnum_val tc = Fin r
        \<and> 0 < c \<and> c < r \<longrightarrow>
      (\<exists>q. compute_score w g sol (Some tt) = Inr (Fin q, w)
         \<and> (fdiv (Fin r) (Fin c) = PInf \<and> q = 0 \<or> fdiv (Fin r) (Fin c) = Fin q \<and> 1 < q)))"
proof (intro conjI impI)
  assume "is_hamiltonian_cycle g sol = Inr False"
  then show "compute_score w g sol t = Inr (Fin 0, List.insert not_hamiltonian_warning w)"
    by (simp add: compute_score_def)
next
  assume "is_hamiltonian_cycle g sol = Inr True \<and> get_path_cost g sol = Inr oc
        \<and> get_path_cost g tt = Inr tc \<and> py_truediv tc oc = Inr ratio"
  then show "compute_score w g sol (Some tt)
      = Inr (nan_to_num ratio (Fin 1) (Fin 0) (Fin 0), w)"
    by (simp add: compute_score_def)
next
  assume h: "is_hamiltonian_cycle g sol = Inr True \<and> g \<noteq> [] \<and> ncols g = length g
        \<and> get_path_cost g sol = Inr oc \<and> get_path_cost g tt = Inr tc
        \<and> pnum_val tc = pnum_val oc"
  then have "is_numpy oc" using square_accepted_numpy by blast
  then have "py_truediv tc oc = Inr (fdiv (pnum_val oc) (pnum_val oc))"
    using h by (simp add: py_truediv_def)
  with h show "compute_score w g sol (Some tt) = Inr (Fin 1, w)"
    by (simp add: compute_score_def sanitized_self_ratio)
next
  assume h: "is_hamiltonian_cycle g sol = Inr True \<and> get_path_cost g sol = Inr oc
        \<and> get_path_cost g tt = Inr tc \<and> pnum_val oc = Fin c \<and> pnum_val tc = Fin r
        \<and> 0 < c \<and> c < r"
  from h get_path_cost_kind[of g sol oc] have "is_numpy oc" by auto
  then have "py_truediv tc oc = Inr (fdiv (Fin r) (Fin c))"
    using h by (simp add: py_truediv_def)
  with h have score: "compute_score w g sol (Some tt)
      = Inr (nan_to_num (fdiv (Fin r) (Fin c)) (Fin 1) (Fin 0) (Fin 0), w)"
    by (simp add: compute_score_def)
  from h have dc: "is_double c" and dr: "is_double r"
    using get_path_cost_double by blast+
  from h have "0 < c" "c < r" by simp_all
  with double_gap[OF dc dr] have "1 + 1 / 2 ^ 53 < r / c" by simp
  from rnd_above_one[OF this] h
  have "fdiv (Fin r) (Fin c) = PInf \<or> (\<exists>q. fdiv (Fin r) (Fin c) = Fin q \<and> 1 < q)"
    by simp
  then show "\<exists>q. compute_score w g sol (Some tt) = Inr (Fin q, w)
         \<and> (fdiv (Fin r) (Fin c) = PInf \<and> q = 0 \<or> fdiv (Fin r) (Fin c) = Fin q \<and> 1 < q)"
  proof
    assume "fdiv (Fin r) (Fin c) = PInf"
    with score show ?thesis by simp
  next
    assume "\<exists>q. fdiv (Fin r) (Fin c) = Fin q \<and> 1 < q"
    then obtain q where "fdiv (Fin r) (Fin c) = Fin q" "1 < q" by blast
    with score show ?thesis by simp
  qed
qed

lemmas score_defs = compute_score_def is_hamiltonian_cycle_def get_path_cost_def py_truediv_def
  ring_graph_def scenario_graph_def asarray_squeeze_def ncols_def edges_def norm_index_def
  index_error_def getitem2_def iadd_def

lemma scenario_accepts: "is_hamiltonian_cycle scenario_graph [0, 1, 2, 0] = Inr True"
  by (simp add: score_defs)

lemma scenario_rejects: "is_hamiltonian_cycle scenario_graph [0, 1, 0] = Inr False"
  by (simp add: score_defs)

lemma scenario_costs:
  "get_path_cost scenario_graph [0, 1, 2, 0] = Inr (NpFloat (Fin 6))"
  "get_path_cost scenario_graph [0, 2, 1, 0] = Inr (NpFloat (Fin 6))"
  by (simp_all add: score_defs rnd_million)

lemma ring_accepts: "is_hamiltonian_cycle (ring_graph (Fin p) d) [0, 1, 2, 3, 0] = Inr True"
  by (simp add: score_defs)

lemma ring_costs_1_2:
  "get_path_cost (ring_graph (Fin 1) (Fin 2)) [0, 1, 2, 3, 0] = Inr (NpFloat (Fin 4))"
  "get_path_cost (ring_graph (Fin 1) (Fin 2)) [0, 2, 1, 3, 0] = Inr (NpFloat (Fin 6))"
  by (simp_all add: score_defs rnd_million)

lemma ring_costs_3_4:
  "get_path_cost (ring_graph (Fin (3 / 4)) (Fin (5 / 4))) [0, 1, 2, 3, 0] = Inr (NpFloat (Fin 3))"
  "get_path_cost (ring_graph (Fin (3 / 4)) (Fin (5 / 4))) [0, 2, 1, 3, 0] = Inr (NpFloat (Fin 4))"
  by (simp_all add: score_defs rnd_million)

theorem compute_score_cases_witness:
  "compute_score [] scenario_graph [0, 1, 0] (Some [0, 2, 1, 0])
     = Inr (Fin 0, [not_hamiltonian_warning])
   \<and> compute_score [] scenario_graph [0, 1, 2, 0] (Some [0, 2, 1, 0]) = Inr (Fin 1, [])
   \<and> compute_score [] (ring_graph (Fin 1) (Fin 2)) [0, 1, 2, 3, 0] (Some [0, 2, 1, 3, 0])
     = Inr (Fin (3 / 2), [])
   \<and> compute_score [] (ring_graph (Fin (3 / 4)) (Fin (5 / 4))) [0, 1, 2, 3, 0]
       (Some [0, 2, 1, 3, 0])
     = Inr (Fin (6004799503160661 / 2 ^ 52), [])"
proof -
  have sq: "scenario_graph \<noteq> []" "ncols scenario_graph = length scenario_graph"
    by (simp_all add: scenario_graph_def ncols_def)
  have q1: "fdiv (Fin 6) (Fin 4) = Fin (3 / 2)" by (simp add: rnd_million)
  have q2: "fdiv (Fin 4) (Fin 3) = Fin (6004799503160661 / 2 ^ 52)"
    by (simp add: rnd_four_thirds)
  note a = compute_score_cases[where g = scenario_graph and sol = "[0, 1, 0]" and w = "[]"
      and t = "Some [0, 2, 1, 0]"]
  note b = compute_score_cases[where g = scenario_graph and sol = "[0, 1, 2, 0]" and w = "[]"
      and oc = "NpFloat (Fin 6)" and tt = "[0, 2, 1, 0]" and tc = "NpFloat (Fin 6)"]
  note c = compute_score_cases[where g = "ring_graph (Fin 1) (Fin 2)"
      and sol = "[0, 1, 2, 3, 0]" and w = "[]" and oc = "NpFloat (Fin 4)"
      and tt = "[0, 2, 1, 3, 0]" and tc = "NpFloat (Fin 6)" and c = 4 and r = 6]
  note d = compute_score_cases[where g = "ring_graph (Fin (3 / 4)) (Fin (5 / 4))"
      and sol = "[0, 1, 2, 3, 0]" and w = "[]" and oc = "NpFloat (Fin 3)"
      and tt = "[0, 2, 1, 3, 0]" and tc = "NpFloat (Fin 4)" and c = 3 and r = 4]
  from a scenario_rejects
  have "compute_score [] scenario_graph [0, 1, 0] (Some [0, 2, 1, 0])
     = Inr (Fin 0, [not_hamiltonian_warning])" by simp
  moreover from b scenario_accepts scenario_costs sq
  have "compute_score [] scenario_graph [0, 1, 2, 0] (Some [0, 2, 1, 0]) = Inr (Fin 1, [])"
    by simp
  moreover from c[THEN conjunct2, THEN conjunct2, THEN conjunct2] ring_accepts ring_costs_1_2
  have "\<exists>q. compute_score [] (ring_graph (Fin 1) (Fin 2)) [0, 1, 2, 3, 0] (Some [0, 2, 1, 3, 0])
          = Inr (Fin q, [])
        \<and> (fdiv (Fin 6) (Fin 4) = PInf \<and> q = 0 \<or> fdiv (Fin 6) (Fin 4) = Fin q \<and> 1 < q)"
    by simp
  then have "compute_score [] (ring_graph (Fin 1) (Fin 2)) [0, 1, 2, 3, 0] (Some [0, 2, 1, 3, 0])
     = Inr (Fin (3 / 2), [])" unfolding q1 by auto
  moreover from d[THEN conjunct2, THEN conjunct2, THEN conjunct2] ring_accepts ring_costs_3_4
  have "\<exists>q. compute_score [] (ring_graph (Fin (3 / 4)) (Fin (5 / 4))) [0, 1, 2, 3, 0]
            (Some [0, 2, 1, 3, 0]) = Inr (Fin q, [])
        \<and> (fdiv (Fin 4) (Fin 3) = PInf \<and> q = 0 \<or> fdiv (Fin 4) (Fin 3) = Fin q \<and> 1 < q)"
    by simp
  then have "compute_score [] (ring_graph (Fin (3 / 4)) (Fin (5 / 4))) [0, 1, 2, 3, 0]
       (Some [0, 2, 1, 3, 0]) = Inr (Fin (6004799503160661 / 2 ^ 52), [])"
    unfolding q2 by auto
  ultimately show ?thesis by blast
qed

text \<open>
  C1 as stated fails in its last part: a candidate cost strictly below the reference cost
  does not always give a score above \<open>1.0\<close>. In each of the four graphs the candidate
  \<open>[0, 1, 2, 3, 0]\<close> is accepted and costs less than the reference \<open>[0, 2, 1, 3, 0]\<close>,
  yet the score is \<open>0.0\<close> when the reference crosses a missing edge (its cost is
  \<open>+infinity\<close>), \<open>0.0\<close> when the candidate costs \<open>0\<close>, \<open>0.25\<close> when the costs are
  negative, and \<open>0.0\<close> when the quotient \<open>2^1001 / 2^-29\<close> overflows.
\<close>

theorem compute_score_counterexample:
  "get_path_cost (ring_graph (Fin 1) PInf) [0, 1, 2, 3, 0] = Inr (NpFloat (Fin 4))
   \<and> get_path_cost (ring_graph (Fin 1) PInf) [0, 2, 1, 3, 0] = Inr (NpFloat PInf)
   \<and> compute_score [] (ring_graph (Fin 1) PInf) [0, 1, 2, 3, 0] (Some [0, 2, 1, 3, 0])
      = Inr (Fin 0, [])
   \<and> get_path_cost (ring_graph (Fin 0) (Fin 1)) [0, 1, 2, 3, 0] = Inr (NpFloat (Fin 0))
   \<and> get_path_cost (ring_graph (Fin 0) (Fin 1)) [0, 2, 1, 3, 0] = Inr (NpFloat (Fin 2))
   \<and> compute_score [] (ring_graph (Fin 0) (Fin 1)) [0, 1, 2, 3, 0] (Some [0, 2, 1, 3, 0])
      = Inr (Fin 0, [])
   \<and> get_path_cost (ring_graph (Fin (- 2)) (Fin 1)) [0, 1, 2, 3, 0] = Inr (NpFloat (Fin (- 8)))
   \<and> get_path_cost (ring_graph (Fin (- 2)) (Fin 1)) [0, 2, 1, 3, 0] = Inr (NpFloat (Fin (- 2)))
   \<and> compute_score [] (ring_graph (Fin (- 2)) (Fin 1)) [0, 1, 2, 3, 0] (Some [0, 2, 1, 3, 0])
      = Inr (Fin (1 / 4), [])
   \<and> get_path_cost steep_graph [0, 1, 2, 3, 0] = Inr (NpFloat (Fin (1 / 2 ^ 29)))
   \<and> get_path_cost steep_graph [0, 2, 1, 3, 0] = Inr (NpFloat (Fin (2 ^ 1001)))
   \<and> compute_score [] steep_graph [0, 1, 2, 3, 0] (Some [0, 2, 1, 3, 0]) = Inr (Fin 0, [])"
proof -
  have "get_path_cost (ring_graph (Fin 1) PInf) [0, 1, 2, 3, 0] = Inr (NpFloat (Fin 4))
   \<and> get_path_cost (ring_graph (Fin 1) PInf) [0, 2, 1, 3, 0] = Inr (NpFloat PInf)
   \<and> compute_score [] (ring_graph (Fin 1) PInf) [0, 1, 2, 3, 0] (Some [0, 2, 1, 3, 0])
      = Inr (Fin 0, [])"
    by (simp add: score_defs rnd_million)
  moreover
  have "get_path_cost (ring_graph (Fin 0) (Fin 1)) [0, 1, 2, 3, 0] = Inr (NpFloat (Fin 0))
   \<and> get_path_cost (ring_graph (Fin 0) (Fin 1)) [0, 2, 1, 3, 0] = Inr (NpFloat (Fin 2))
   \<and> compute_score [] (ring_graph (Fin 0) (Fin 1)) [0, 1, 2, 3, 0] (Some [0, 2, 1, 3, 0])
      = Inr (Fin 0, [])"
    by (simp add: score_defs rnd_million)
  moreover
  have "get_path_cost (ring_graph (Fin (- 2)) (Fin 1)) [0, 1, 2, 3, 0]
      = Inr (NpFloat (Fin (- 8)))
   \<and> get_path_cost (ring_graph (Fin (- 2)) (Fin 1)) [0, 2, 1, 3, 0]
      = Inr (NpFloat (Fin (- 2)))
   \<and> compute_score [] (ring_graph (Fin (- 2)) (Fin 1)) [0, 1, 2, 3, 0] (Some [0, 2, 1, 3, 0])
      = Inr (Fin (1 / 4), [])"
    by (simp add: score_defs rnd_million)
  moreover
  have "get_path_cost steep_graph [0, 1, 2, 3, 0] = Inr (NpFloat (Fin (1 / 2 ^ 29)))
   \<and> get_path_cost steep_graph [0, 2, 1, 3, 0] = Inr (NpFloat (Fin (2 ^ 1001)))
   \<and> compute_score [] steep_graph [0, 1, 2, 3, 0] (Some [0, 2, 1, 3, 0]) = Inr (Fin 0, [])"
    by (simp add: score_defs steep_graph_def rnd_million rnd_large rnd_overflow)
  ultimately show ?thesis by blast
qed

text \<open>
  C10, as the code has it. For a candidate tour that is accepted and whose path cost is
  finite (the sum of its finite weights did not overflow), a reference tour with path cost
  \<open>+infinity\<close> gives the score \<open>0.0\<close>; a reference that is \<^verbatim>\<open>None\<close> gives no
  score: \<^verbatim>\<open>get_path_cost\<close> raises on it.
\<close>

theorem infinite_reference_scores_zero:
  assumes "is_hamiltonian_cycle g sol = Inr True"
    and "get_path_cost g sol = Inr oc" and "isfinite (pnum_val oc)"
  shows "(\<forall>tt tc. get_path_cost g tt = Inr tc \<and> pnum_val tc = PInf \<longrightarrow>
            compute_score w g sol (Some tt) = Inr (Fin 0, w))
       \<and> compute_score w g sol None = Inl TypeError"
proof
  show "compute_score w g sol None = Inl TypeError"
    using assms(1,2) by (simp add: compute_score_def)
  show "\<forall>tt tc. get_path_cost g tt = Inr tc \<and> pnum_val tc = PInf \<longrightarrow>
            compute_score w g sol (Some tt) = Inr (Fin 0, w)"
  proof (intro allI impI)
    fix tt tc assume t: "get_path_cost g tt = Inr tc \<and> pnum_val tc = PInf"
    from assms(3) obtain c where c: "pnum_val oc = Fin c" by (cases "pnum_val oc") simp_all
    have np: "is_numpy oc"
    proof (rule ccontr)
      assume "\<not> is_numpy oc"
      with get_path_cost_kind[OF assms(2)] c have oc: "oc = PyInt 0" by auto
      from is_hamiltonian_cycle_True[OF assms(1)] obtain n ws where
        h: "shape0 (asarray_squeeze g) = Inr n" "length sol = n + 1"
          "lookups (asarray_squeeze g) (edges sol) = map Inr ws"
          "\<forall>w\<in>set ws. isfinite w" "length ws = n"
        by blast
      from h(4) have "\<forall>w\<in>set ws. \<not> isnan w" by (simp add: isfinite_not_nan)
      from path_cost_loop_all[OF h(3) this] assms(2)
      have "oc = foldl iadd (PyInt 0) ws" unfolding get_path_cost_def by simp
      with \<open>\<not> is_numpy oc\<close> is_numpy_foldl_iadd have "ws = []" by blast
      with h(1,5) have "shape0 (asarray_squeeze g) = Inr 0" by simp
      then have "\<forall>i j. \<exists>e. getitem2 (asarray_squeeze g) i j = Inl e"
        by (simp add: shape0_zero_no_lookup)
      from path_cost_loop_no_lookup[OF this] t have "tc = PyInt 0"
        unfolding get_path_cost_def by blast
      with t show False by simp
    qed
    then have "py_truediv tc oc = Inr (fdiv PInf (Fin c))"
      using t c by (simp add: py_truediv_def)
    with assms(1,2) t show "compute_score w g sol (Some tt) = Inr (Fin 0, w)"
      by (simp add: compute_score_def)
  qed
qed

theorem infinite_reference_scores_zero_witness:
  "isfinite (pnum_val (NpFloat (Fin 4)))
   \<and> compute_score [] (ring_graph (Fin 1) PInf) [0, 1, 2, 3, 0] (Some [0, 2, 1, 3, 0])
      = Inr (Fin 0, [])
   \<and> compute_score [] (ring_graph (Fin 1) PInf) [0, 1, 2, 3, 0] None = Inl TypeError"
proof -
  have c: "get_path_cost (ring_graph (Fin 1) PInf) [0, 1, 2, 3, 0] = Inr (NpFloat (Fin 4))"
    "get_path_cost (ring_graph (Fin 1) PInf) [0, 2, 1, 3, 0] = Inr (NpFloat PInf)"
    by (simp_all add: score_defs rnd_million)
  have f: "isfinite (pnum_val (NpFloat (Fin 4)))" by simp
  from infinite_reference_scores_zero[OF ring_accepts c(1) f, of "[]"] c(2) f
  show ?thesis by simp
qed

lemma rnd_huge: "rnd huge = Fin huge"
  unfolding huge_def by (simp add: rnd_large)

lemma rnd_huge_twice: "rnd (2 * huge) = PInf"
  unfolding huge_def by (simp add: rnd_overflow)

text \<open>
  C10 as stated fails twice. The record without a solution carries \<^verbatim>\<open>None\<close> as its
  tour, and scoring against it raises instead of returning \<open>0.0\<close>. And an accepted tour
  need not have a finite path cost: with ring edges of weight \<open>2^1023\<close> the sum overflows,
  the quotient of two infinities is NaN, and the score is \<open>1.0\<close>.
\<close>

theorem infinite_reference_counterexample:
  "is_hamiltonian_cycle scenario_graph [0, 1, 2, 0] = Inr True
   \<and> compute_score [] scenario_graph [0, 1, 2, 0] None = Inl TypeError
   \<and> is_hamiltonian_cycle (ring_graph (Fin huge) PInf) [0, 1, 2, 3, 0] = Inr True
   \<and> get_path_cost (ring_graph (Fin huge) PInf) [0, 1, 2, 3, 0] = Inr (NpFloat PInf)
   \<and> get_path_cost (ring_graph (Fin huge) PInf) [0, 2, 1, 3, 0] = Inr (NpFloat PInf)
   \<and> compute_score [] (ring_graph (Fin huge) PInf) [0, 1, 2, 3, 0] (Some [0, 2, 1, 3, 0])
      = Inr (Fin 1, [])"
  by (simp add: score_defs rnd_million rnd_huge rnd_huge_twice)

subsection \<open>The reference solver\<close>


lemma best_loop_skips:
  "best_loop ext adj ms best = best_loop ext adj (filter (\<lambda>m. \<not> raises ext adj m) ms) best"
proof (induction ms arbitrary: best)
  case Nil
  then show ?case by simp
next
  case (Cons m ms)
  obtain bp bc bm where b: "best = (bp, bc, bm)" by (cases best)
  show ?case unfolding b using Cons.IH
    by (simp add: raises_def split: sum.splits prod.splits)
qed

lemma best_loop_unchanged:
  assumes "\<forall>m\<in>set ms. \<forall>func cycle cost.
             attempt ext adj m = Inr (func, cycle, cost) \<longrightarrow> \<not> pnum_lt cost bc"
  shows "best_loop ext adj ms (bp, bc, bm) = (bp, bc, bm)"
  using assms
proof (induction ms)
  case Nil
  then show ?case by simp
next
  case (Cons m ms)
  then show ?case by (cases "attempt ext adj m") auto
qed

text \<open>
  C5: the methods that raise inside \<^verbatim>\<open>gen_best_solution\<close> (an unknown name, an
  entry that is not callable, a solver that raises, a cycle whose cost cannot be computed)
  have no effect on the result: it is the result of the search over the remaining methods
  alone. When no method yields a cost strictly below \<open>+infinity\<close>, the result is
  \<^verbatim>\<open>(None, inf, None)\<close>.
\<close>

theorem raising_methods_skipped:
  "gen_best_solution ext adj methods
     = gen_best_solution ext adj
         (MethodsSeq (filter (\<lambda>m. \<not> raises ext adj m) (methods_list ext methods)))
   \<and> ((\<forall>m\<in>set (methods_list ext methods). \<forall>func cycle cost.
          attempt ext adj m = Inr (func, cycle, cost) \<longrightarrow> \<not> pnum_lt cost (PyFloat PInf)) \<longrightarrow>
        gen_best_solution ext adj methods = (None, PyFloat PInf, None))"
proof
  show "gen_best_solution ext adj methods
     = gen_best_solution ext adj
         (MethodsSeq (filter (\<lambda>m. \<not> raises ext adj m) (methods_list ext methods)))"
    unfolding gen_best_solution_def
    by (subst best_loop_skips) (simp add: methods_list_def)
  show "(\<forall>m\<in>set (methods_list ext methods). \<forall>func cycle cost.
          attempt ext adj m = Inr (func, cycle, cost) \<longrightarrow> \<not> pnum_lt cost (PyFloat PInf)) \<longrightarrow>
        gen_best_solution ext adj methods = (None, PyFloat PInf, None)"
    unfolding gen_best_solution_def by (auto intro: best_loop_unchanged)
qed






lemma demo_env_simps:
  "nx_all demo_env = [''christofides'', ''greedy_tsp'']"
  "nx_getattr demo_env =
     (\<lambda>s. if s \<in> {''christofides'', ''greedy_tsp'', ''simulated_annealing_tsp'',
                    ''threshold_accepting_tsp''} then Some (Some s)
          else if s = ''math'' then Some None else None)"
  "nx_tsp demo_env = demo_tsp"
  "func_name demo_env = (\<lambda>f. f)"
  by (simp_all add: demo_env_def)

lemma ring_cost_reverse:
  "get_path_cost (ring_graph (Fin 1) (Fin 2)) [0, 3, 2, 1, 0] = Inr (NpFloat (Fin 4))"
  by (simp add: score_defs rnd_million)

lemma demo_attempts:
  "attempt demo_env (ring_graph (Fin 1) (Fin 2)) (MStr ''christofides'')
     = Inr (''christofides'', [0, 2, 1, 3, 0], NpFloat (Fin 6))"
  "attempt demo_env (ring_graph (Fin 1) (Fin 2)) (MStr ''greedy_tsp'')
     = Inr (''greedy_tsp'', [0, 1, 2, 3, 0], NpFloat (Fin 4))"
  "attempt demo_env (ring_graph (Fin 1) (Fin 2)) (MStr ''simulated_annealing_tsp'')
     = Inr (''simulated_annealing_tsp'', [0, 3, 2, 1, 0], NpFloat (Fin 4))"
  "attempt demo_env (ring_graph (Fin 1) (Fin 2)) (MStr ''nope'') = Inl AttributeError"
  "attempt demo_env (ring_graph (Fin 1) (Fin 2)) (MStr ''math'') = Inl AssertionError"
  "attempt demo_env (ring_graph (Fin 1) (Fin 2)) MOther = Inl AssertionError"
  "attempt demo_env (ring_graph (Fin 1) (Fin 2)) (MFunc ''boom'') = Inl (Exception ''no cycle'')"
  by (simp_all add: attempt_def demo_env_simps demo_tsp_def ring_costs_1_2 ring_cost_reverse)

theorem raising_methods_skipped_witness:
  "gen_best_solution demo_env (ring_graph (Fin 1) (Fin 2))
      (MethodsSeq [MStr ''nope'', MStr ''math'', MOther, MFunc ''boom'', MStr ''christofides''])
     = (Some [0, 2, 1, 3, 0], NpFloat (Fin 6), Some ''christofides'')
   \<and> gen_best_solution demo_env (ring_graph (Fin 1) (Fin 2))
      (MethodsSeq [MStr ''nope'', MStr ''math'', MOther, MFunc ''boom''])
     = (None, PyFloat PInf, None)"
proof -
  note t1 = raising_methods_skipped[where ext = demo_env and adj = "ring_graph (Fin 1) (Fin 2)"
      and methods = "MethodsSeq [MStr ''nope'', MStr ''math'', MOther, MFunc ''boom'',
        MStr ''christofides'']", THEN conjunct1]
  note t2 = raising_methods_skipped[where ext = demo_env and adj = "ring_graph (Fin 1) (Fin 2)"
      and methods = "MethodsSeq [MStr ''nope'', MStr ''math'', MOther, MFunc ''boom'']",
      THEN conjunct2]
  from t1 have "gen_best_solution demo_env (ring_graph (Fin 1) (Fin 2))
      (MethodsSeq [MStr ''nope'', MStr ''math'', MOther, MFunc ''boom'', MStr ''christofides''])
     = gen_best_solution demo_env (ring_graph (Fin 1) (Fin 2)) (MethodsSeq [MStr ''christofides''])"
    by (simp add: methods_list_def raises_def demo_attempts)
  also have "\<dots> = (Some [0, 2, 1, 3, 0], NpFloat (Fin 6), Some ''christofides'')"
    by (simp add: gen_best_solution_def methods_list_def demo_attempts pnum_lt_def)
  finally have a: "gen_best_solution demo_env (ring_graph (Fin 1) (Fin 2))
      (MethodsSeq [MStr ''nope'', MStr ''math'', MOther, MFunc ''boom'', MStr ''christofides''])
     = (Some [0, 2, 1, 3, 0], NpFloat (Fin 6), Some ''christofides'')" .
  from t2 have b: "gen_best_solution demo_env (ring_graph (Fin 1) (Fin 2))
      (MethodsSeq [MStr ''nope'', MStr ''math'', MOther, MFunc ''boom''])
     = (None, PyFloat PInf, None)"
    by (simp add: methods_list_def demo_attempts)
  from a b show ?thesis by simp
qed


subsection \<open>The graph generators\<close>

lemma rand_matrix_shape:
  "length (rand_matrix ext n seed) = n"
  "i < n \<Longrightarrow> length (rand_matrix ext n seed ! i) = n"
  "i < n \<Longrightarrow> j < n \<Longrightarrow> rand_matrix ext n seed ! i ! j = rand ext seed (i * n + j)"
  by (simp_all add: rand_matrix_def)

lemma ncols_rand_matrix: "ncols (rand_matrix ext n seed) = n"
proof (cases n)
  case 0
  then show ?thesis by (simp add: rand_matrix_def ncols_def)
next
  case (Suc m)
  then have "rand_matrix ext n seed \<noteq> []" by (simp add: rand_matrix_def)
  then obtain r rs where rs: "rand_matrix ext n seed = r # rs" by (cases "rand_matrix ext n seed") auto
  have "length (rand_matrix ext n seed ! 0) = n" using Suc by (simp add: rand_matrix_shape)
  with rs show ?thesis by (simp add: ncols_def)
qed

lemma mat_T_nth:
  "j < ncols a \<Longrightarrow> i < length a \<Longrightarrow> mat_T a ! j ! i = a ! i ! j"
  by (simp add: mat_T_def)

lemma mat_T_shape:
  "length (mat_T a) = ncols a" "j < ncols a \<Longrightarrow> length (mat_T a ! j) = length a"
  by (simp_all add: mat_T_def)

lemma mat_add_nth:
  assumes "i < length a" "i < length b" "j < length (a ! i)" "j < length (b ! i)"
  shows "mat_add a b ! i ! j = fadd (a ! i ! j) (b ! i ! j)"
  using assms by (simp add: mat_add_def)

lemma mat_add_shape:
  "length (mat_add a b) = min (length a) (length b)"
  "i < length a \<Longrightarrow> i < length b \<Longrightarrow>
   length (mat_add a b ! i) = min (length (a ! i)) (length (b ! i))"
  by (simp_all add: mat_add_def)

lemma set_diag_shape:
  "length (set_diag n v a) = length a"
  "i < length a \<Longrightarrow> length (set_diag n v a ! i) = length (a ! i)"
  by (simp_all add: set_diag_def)

lemma set_diag_nth:
  "i < length a \<Longrightarrow> i < n \<Longrightarrow> j < length (a ! i) \<Longrightarrow>
   set_diag n v a ! i ! j = (if i = j then v else a ! i ! j)"
  by (auto simp: set_diag_def)

lemma random_graph_entries:
  assumes "i < n" "j < n"
  shows "length (gen_complete_random_graph ext n seed) = n"
    and "length (gen_complete_random_graph ext n seed ! i) = n"
    and "gen_complete_random_graph ext n seed ! i ! j =
      (if i = j then PInf
       else fadd (rand ext seed (i * n + j)) (rand ext seed (j * n + i)))"
proof -
  let ?r = "rand_matrix ext n seed"
  let ?s = "mat_add ?r (mat_T ?r)"
  have ls: "length ?s = n"
    by (simp add: mat_add_shape mat_T_shape rand_matrix_shape ncols_rand_matrix)
  have lr: "length (?s ! i) = n" using assms
    by (simp add: mat_add_shape mat_T_shape rand_matrix_shape ncols_rand_matrix)
  have e: "?s ! i ! j = fadd (rand ext seed (i * n + j)) (rand ext seed (j * n + i))"
    using assms
    by (simp add: mat_add_nth mat_T_nth mat_T_shape rand_matrix_shape ncols_rand_matrix)
  show "length (gen_complete_random_graph ext n seed) = n"
    by (simp add: gen_complete_random_graph_def Let_def set_diag_shape ls)
  show "length (gen_complete_random_graph ext n seed ! i) = n"
    using assms by (simp add: gen_complete_random_graph_def Let_def set_diag_shape ls lr)
  show "gen_complete_random_graph ext n seed ! i ! j =
      (if i = j then PInf
       else fadd (rand ext seed (i * n + j)) (rand ext seed (j * n + i)))"
    using assms by (simp add: gen_complete_random_graph_def Let_def set_diag_nth ls lr e)
qed

lemma fadd_finite_not_nan: "isfinite x \<Longrightarrow> isfinite y \<Longrightarrow> \<not> isnan (fadd x y)"
  by (cases x; cases y) (simp_all add: rnd_def)

lemma fl_eq_refl: "\<not> isnan x \<Longrightarrow> fl_eq x x"
  by (cases x) simp_all

lemma random_graph_symmetric:
  assumes "\<forall>k. isfinite (rand ext seed k)" and "i < n" and "j < n"
  shows "fl_eq (gen_complete_random_graph ext n seed ! i ! j)
               (gen_complete_random_graph ext n seed ! j ! i)"
proof (cases "i = j")
  case True
  with assms show ?thesis by (simp add: random_graph_entries)
next
  case False
  have "\<not> isnan (fadd (rand ext seed (i * n + j)) (rand ext seed (j * n + i)))"
    using assms(1) by (simp add: fadd_finite_not_nan)
  with False assms(2,3) show ?thesis
    by (simp add: random_graph_entries fadd_commute[of "rand ext seed (j * n + i)"] fl_eq_refl)
qed


lemma edge_key_commute: "edge_key u v = edge_key v u"
  by (simp add: edge_key_def min.commute max.commute)

lemma edge_key_diag: "fst (edge_key u v) = snd (edge_key u v) \<longleftrightarrow> u = v"
  by (auto simp: edge_key_def min_def max_def)

lemma add_edge_ok:
  assumes "edges_ok (snd g)" and "u \<noteq> v" and "\<forall>x. w = Some x \<longrightarrow> \<not> isnan x"
  shows "edges_ok (snd (add_edge g u v w))"
  unfolding edges_ok_def
proof (intro allI impI)
  fix k w'
  assume k: "map_of (snd (add_edge g u v w)) k = Some w'"
  show "fst k \<noteq> snd k \<and> (\<forall>x. w' = Some x \<longrightarrow> \<not> isnan x)"
  proof (cases "k = edge_key u v")
    case True
    with k have "w' = w" by (simp add: add_edge_def update_conv')
    with True assms(2,3) show ?thesis by (simp add: edge_key_diag)
  next
    case False
    with k have "map_of (snd g) k = Some w'" by (simp add: add_edge_def update_conv')
    with assms(1) show ?thesis unfolding edges_ok_def by blast
  qed
qed

lemma foldl_add_edge_ok:
  assumes "edges_ok (snd g)"
    and "\<forall>p\<in>set ps. fst p \<noteq> snd p \<and> (\<forall>x. w (fst p) (snd p) = Some x \<longrightarrow> \<not> isnan x)"
  shows "edges_ok (snd (foldl (\<lambda>g (u, v). add_edge g u v (w u v)) g ps))"
  using assms
proof (induction ps arbitrary: g)
  case Nil
  then show ?case by simp
next
  case (Cons p ps)
  obtain u v where p: "p = (u, v)" by (cases p)
  from Cons.prems p have "edges_ok (snd (add_edge g u v (w u v)))"
    by (simp add: add_edge_ok)
  from Cons.IH[OF this] Cons.prems(2) p show ?case by simp
qed

lemma fst_foldl_add_edge:
  "fst (foldl (\<lambda>g (u, v). add_edge g u v (w u v)) g ps) = fst g"
  by (induction ps arbitrary: g) (auto simp: add_edge_def)

lemma fst_add_edge: "fst (add_edge g u v w) = fst g"
  by (simp add: add_edge_def)

lemma upper_pairs_less: "(i, j) \<in> set (upper_pairs n) \<Longrightarrow> i < j"
  by (auto simp: upper_pairs_def)

lemma fsub_finite_not_nan: "isfinite x \<Longrightarrow> isfinite y \<Longrightarrow> \<not> isnan (fsub x y)"
  by (cases x; cases y) (simp_all add: fsub_def rnd_def)

lemma gen_geometric_graph_eq:
  "gen_geometric_graph ext n seed = to_numpy_array (weighted_graph ext n seed) PInf"
  by (simp add: gen_geometric_graph_def weighted_graph_def Let_def)

lemma weighted_graph_nodes: "fst (weighted_graph ext n seed) = n"
  unfolding weighted_graph_def random_geometric_graph_def
  by (simp add: fst_foldl_add_edge)

lemma weighted_graph_ok:
  assumes "\<forall>v. isfinite (fst (geo_pos ext n seed v)) \<and> isfinite (snd (geo_pos ext n seed v))"
    and "\<forall>x y. \<not> isnan x \<and> \<not> isnan y \<longrightarrow> \<not> isnan (hypot ext x y)"
    and "\<forall>(u, v)\<in>set (geo_edges ext n seed). u \<noteq> v"
  shows "edges_ok (snd (weighted_graph ext n seed))"
proof -
  have "edges_ok (snd (random_geometric_graph ext n seed))"
    unfolding random_geometric_graph_def
  proof (rule foldl_add_edge_ok)
    show "edges_ok (snd (n, []))" by (simp add: edges_ok_def)
    show "\<forall>p\<in>set (geo_edges ext n seed). fst p \<noteq> snd p \<and> (\<forall>x. None = Some x \<longrightarrow> \<not> isnan x)"
      using assms(3) by auto
  qed
  then show ?thesis unfolding weighted_graph_def
  proof (rule foldl_add_edge_ok)
    show "\<forall>p\<in>set (upper_pairs n). fst p \<noteq> snd p \<and>
      (\<forall>x. Some (hypot ext
              (fsub (fst (geo_pos ext n seed (fst p))) (fst (geo_pos ext n seed (snd p))))
              (fsub (snd (geo_pos ext n seed (fst p))) (snd (geo_pos ext n seed (snd p)))))
            = Some x \<longrightarrow> \<not> isnan x)"
    proof
      fix p assume p: "p \<in> set (upper_pairs n)"
      then have "fst p < snd p" using upper_pairs_less[of "fst p" "snd p" n] by simp
      moreover have "\<not> isnan (hypot ext
              (fsub (fst (geo_pos ext n seed (fst p))) (fst (geo_pos ext n seed (snd p))))
              (fsub (snd (geo_pos ext n seed (fst p))) (snd (geo_pos ext n seed (snd p)))))"
        using assms(1,2) by (simp add: fsub_finite_not_nan)
      ultimately show "fst p \<noteq> snd p \<and>
        (\<forall>x. Some (hypot ext
              (fsub (fst (geo_pos ext n seed (fst p))) (fst (geo_pos ext n seed (snd p))))
              (fsub (snd (geo_pos ext n seed (fst p))) (snd (geo_pos ext n seed (snd p)))))
            = Some x \<longrightarrow> \<not> isnan x)"
        by simp
    qed
  qed
qed

lemma to_numpy_array_shape:
  "length (to_numpy_array g nonedge) = fst g"
  "u < fst g \<Longrightarrow> length (to_numpy_array g nonedge ! u) = fst g"
  by (simp_all add: to_numpy_array_def)

lemma to_numpy_array_nth:
  "u < fst g \<Longrightarrow> v < fst g \<Longrightarrow>
   to_numpy_array g nonedge ! u ! v =
     (case map_of (snd g) (edge_key u v) of
        None \<Rightarrow> nonedge | Some None \<Rightarrow> Fin 1 | Some (Some w) \<Rightarrow> w)"
  by (simp add: to_numpy_array_def)

lemma geometric_graph_entries:
  assumes "\<forall>v. isfinite (fst (geo_pos ext n seed v)) \<and> isfinite (snd (geo_pos ext n seed v))"
    and "\<forall>x y. \<not> isnan x \<and> \<not> isnan y \<longrightarrow> \<not> isnan (hypot ext x y)"
    and "\<forall>(u, v)\<in>set (geo_edges ext n seed). u \<noteq> v"
    and "i < n" and "j < n"
  shows "length (gen_geometric_graph ext n seed) = n"
    and "length (gen_geometric_graph ext n seed ! i) = n"
    and "gen_geometric_graph ext n seed ! i ! i = PInf"
    and "fl_eq (gen_geometric_graph ext n seed ! i ! j) (gen_geometric_graph ext n seed ! j ! i)"
proof -
  let ?g = "weighted_graph ext n seed"
  note ok = weighted_graph_ok[OF assms(1,2,3), unfolded edges_ok_def]
  show "length (gen_geometric_graph ext n seed) = n"
    by (simp add: gen_geometric_graph_eq to_numpy_array_shape weighted_graph_nodes)
  show "length (gen_geometric_graph ext n seed ! i) = n"
    using assms(4) by (simp add: gen_geometric_graph_eq to_numpy_array_shape weighted_graph_nodes)
  have "map_of (snd ?g) (edge_key i i) = None"
  proof (cases "map_of (snd ?g) (edge_key i i)")
    case None
    then show ?thesis .
  next
    case (Some w)
    with ok[rule_format, of "edge_key i i" w] have "fst (edge_key i i) \<noteq> snd (edge_key i i)"
      by blast
    then show ?thesis by (simp add: edge_key_diag)
  qed
  then show "gen_geometric_graph ext n seed ! i ! i = PInf"
    using assms(4) by (simp add: gen_geometric_graph_eq to_numpy_array_nth weighted_graph_nodes)
  have "\<not> isnan (gen_geometric_graph ext n seed ! i ! j)"
    using assms(4,5) ok[rule_format, of "edge_key i j"]
    by (auto simp: gen_geometric_graph_eq to_numpy_array_nth weighted_graph_nodes
        split: option.splits)
  moreover have "gen_geometric_graph ext n seed ! j ! i = gen_geometric_graph ext n seed ! i ! j"
    using assms(4,5)
    by (simp add: gen_geometric_graph_eq to_numpy_array_nth weighted_graph_nodes
        edge_key_commute[of j i])
  ultimately show "fl_eq (gen_geometric_graph ext n seed ! i ! j)
      (gen_geometric_graph ext n seed ! j ! i)"
    by (simp add: fl_eq_refl)
qed

text \<open>
  C7: for both strategies the generated matrix is \<open>n \<times> n\<close>, every diagonal entry is
  \<open>+infinity\<close>, and \<^verbatim>\<open>W[i][j] == W[j][i]\<close> for all \<open>i\<close> and \<open>j\<close>. The
  hypotheses are the contracts of the libraries: the samples of \<^verbatim>\<open>rand\<close> and the
  positions are finite numbers, \<^verbatim>\<open>np.hypot\<close> of two numbers that are not NaN is not
  NaN, and \<^verbatim>\<open>random_geometric_graph\<close> has no edge from a node to itself.
\<close>

theorem generated_graph_symmetric:
  assumes "method = GStr ''random'' \<or> method = GStr ''geometric''"
    and "\<forall>k. isfinite (rand ext seed k)"
    and "\<forall>v. isfinite (fst (geo_pos ext n seed v)) \<and> isfinite (snd (geo_pos ext n seed v))"
    and "\<forall>x y. \<not> isnan x \<and> \<not> isnan y \<longrightarrow> \<not> isnan (hypot ext x y)"
    and "\<forall>(u, v)\<in>set (geo_edges ext n seed). u \<noteq> v"
  shows "\<exists>W. gen_random_graph ext n seed method = Inr W \<and> length W = n
           \<and> (\<forall>i<n. length (W ! i) = n \<and> W ! i ! i = PInf)
           \<and> (\<forall>i<n. \<forall>j<n. fl_eq (W ! i ! j) (W ! j ! i))"
  using assms(1)
proof
  assume m: "method = GStr ''random''"
  have "length (gen_complete_random_graph ext n seed) = n"
    by (cases n) (simp_all add: random_graph_entries(1)[of 0 _ 0]
        gen_complete_random_graph_def Let_def set_diag_shape mat_add_shape mat_T_shape
        rand_matrix_shape ncols_rand_matrix)
  moreover have "\<forall>i<n. length (gen_complete_random_graph ext n seed ! i) = n
      \<and> gen_complete_random_graph ext n seed ! i ! i = PInf"
    by (simp add: random_graph_entries)
  moreover have "\<forall>i<n. \<forall>j<n. fl_eq (gen_complete_random_graph ext n seed ! i ! j)
      (gen_complete_random_graph ext n seed ! j ! i)"
    using assms(2) by (simp add: random_graph_symmetric)
  ultimately show ?thesis using m by (simp add: gen_random_graph_def)
next
  assume m: "method = GStr ''geometric''"
  have "length (gen_geometric_graph ext n seed) = n"
    by (simp add: gen_geometric_graph_eq to_numpy_array_shape weighted_graph_nodes)
  moreover have "\<forall>i<n. length (gen_geometric_graph ext n seed ! i) = n
      \<and> gen_geometric_graph ext n seed ! i ! i = PInf"
    using geometric_graph_entries(2,3)[OF assms(3,4,5)] by blast
  moreover have "\<forall>i<n. \<forall>j<n. fl_eq (gen_geometric_graph ext n seed ! i ! j)
      (gen_geometric_graph ext n seed ! j ! i)"
    using geometric_graph_entries(4)[OF assms(3,4,5)] by blast
  ultimately show ?thesis using m by (simp add: gen_random_graph_def)
qed


lemma demo_hypot_not_nan: "\<not> isnan x \<and> \<not> isnan y \<longrightarrow> \<not> isnan (demo_hypot x y)"
  by (cases x; cases y) simp_all

lemma demo_env_gen_simps:
  "rand demo_env = (\<lambda>seed k. Fin (1 / 2 ^ (1 + seed + k)))"
  "geo_pos demo_env = (\<lambda>n seed v. (Fin (real v / 2 ^ n), Fin 0))"
  "geo_edges demo_env = (\<lambda>n seed. [(0, 1)])"
  "hypot demo_env = demo_hypot"
  by (simp_all add: demo_env_def)

lemma upt_small: "[0..<2] = [0, 1]" "[0..<3] = [0, 1, 2]"
  by code_simp+

lemma upper_pairs_3: "upper_pairs 3 = [(0, 1), (0, 2), (1, 2)]"
  by code_simp

lemma demo_random:
  "gen_random_graph demo_env 2 0 (GStr ''random'')
     = Inr [[PInf, Fin (3 / 8)], [Fin (3 / 8), PInf]]"
  by (simp add: gen_random_graph_def gen_complete_random_graph_def rand_matrix_def
      mat_add_def mat_T_def set_diag_def ncols_def demo_env_gen_simps Let_def rnd_million upt_small)

lemma demo_geometric:
  "gen_random_graph demo_env 3 0 (GStr ''geometric'')
     = Inr [[PInf, Fin (1 / 8), Fin (1 / 4)],
            [Fin (1 / 8), PInf, Fin (1 / 8)],
            [Fin (1 / 4), Fin (1 / 8), PInf]]"
  by (simp add: gen_random_graph_def gen_geometric_graph_def random_geometric_graph_def
      upper_pairs_3 add_edge_def edge_key_def to_numpy_array_def fsub_def
      demo_env_gen_simps Let_def rnd_million upt_small)


theorem generated_graph_symmetric_witness:
  "gen_random_graph demo_env 2 0 (GStr ''random'')
     = Inr [[PInf, Fin (3 / 8)], [Fin (3 / 8), PInf]]
   \<and> fl_eq ([[PInf, Fin (3 / 8)], [Fin (3 / 8), PInf]] ! 0 ! 1)
           ([[PInf, Fin (3 / 8)], [Fin (3 / 8), PInf]] ! 1 ! 0)
   \<and> gen_random_graph demo_env 3 0 (GStr ''geometric'')
     = Inr [[PInf, Fin (1 / 8), Fin (1 / 4)],
            [Fin (1 / 8), PInf, Fin (1 / 8)],
            [Fin (1 / 4), Fin (1 / 8), PInf]]
   \<and> [[PInf, Fin (1 / 8), Fin (1 / 4)],
       [Fin (1 / 8), PInf, Fin (1 / 8)],
       [Fin (1 / 4), Fin (1 / 8), PInf]] ! 2 ! 2 = PInf"
proof -
  have h: "\<forall>k. isfinite (rand demo_env 0 k)"
    "\<And>n. \<forall>v. isfinite (fst (geo_pos demo_env n 0 v)) \<and> isfinite (snd (geo_pos demo_env n 0 v))"
    "\<forall>x y. \<not> isnan x \<and> \<not> isnan y \<longrightarrow> \<not> isnan (hypot demo_env x y)"
    "\<And>n. \<forall>(u, v)\<in>set (geo_edges demo_env n 0). u \<noteq> v"
    using demo_hypot_not_nan by (simp_all add: demo_env_gen_simps)
  from generated_graph_symmetric[OF disjI1[OF refl] h(1) h(2) h(3) h(4), of 2]
  obtain W where W: "gen_random_graph demo_env 2 0 (GStr ''random'') = Inr W"
    "\<forall>i<2. \<forall>j<2. fl_eq (W ! i ! j) (W ! j ! i)"
    by blast
  from W(1) demo_random have W0: "W = [[PInf, Fin (3 / 8)], [Fin (3 / 8), PInf]]" by simp
  from W(2) have "fl_eq (W ! 0 ! 1) (W ! 1 ! 0)" by simp
  with W0 have a: "fl_eq ([[PInf, Fin (3 / 8)], [Fin (3 / 8), PInf]] ! 0 ! 1)
           ([[PInf, Fin (3 / 8)], [Fin (3 / 8), PInf]] ! 1 ! 0)" by simp
  from generated_graph_symmetric[OF disjI2[OF refl] h(1) h(2) h(3) h(4), of 3]
  obtain V where V: "gen_random_graph demo_env 3 0 (GStr ''geometric'') = Inr V"
    "\<forall>i<3. length (V ! i) = 3 \<and> V ! i ! i = PInf"
    by blast
  from V(1) demo_geometric have V0: "V = [[PInf, Fin (1 / 8), Fin (1 / 4)],
            [Fin (1 / 8), PInf, Fin (1 / 8)],
            [Fin (1 / 4), Fin (1 / 8), PInf]]" by simp
  from V(2) have "V ! 2 ! 2 = PInf" by simp
  with V0 have b: "[[PInf, Fin (1 / 8), Fin (1 / 4)],
       [Fin (1 / 8), PInf, Fin (1 / 8)],
       [Fin (1 / 4), Fin (1 / 8), PInf]] ! 2 ! 2 = PInf" by simp
  from a b demo_random demo_geometric show ?thesis by simp
qed

subsection \<open>The grading run\<close>

lemma compute_score_returns:
  assumes "compute_score v g s t = Inr r"
  shows "\<exists>r'. compute_score w g s t = Inr r'"
  using assms unfolding compute_score_def
  by (auto split: sum.splits bool.splits option.splits)

lemma run_loop_fail_fast:
  assumes "k < length inputs" and "i0 + k < length expected"
    and "\<forall>i<k. \<exists>obj sol r. cls (inputs ! i) = Inr obj \<and> gs obj = Inr sol
           \<and> compute_score [] (inputs ! i) sol (expected ! (i0 + i)) = Inr r"
    and "cls (inputs ! k) = Inl e \<or> (\<exists>obj. cls (inputs ! k) = Inr obj \<and> gs obj = Inl e)"
  shows "\<exists>prefix w'. run_loop nm cls gs expected w scores i0 inputs
             = Inr (Returned \<lparr>name = nm, percent_value = Fin 0, message = prefix @ e\<rparr> w')
           \<and> (prefix = ''Error raised during instantiation: ''
                \<or> prefix = ''Error raised during test: '')"
  using assms
proof (induction k arbitrary: inputs i0 w scores)
  case 0
  then obtain x rest where x: "inputs = x # rest" by (cases inputs) auto
  from 0 x have i0: "\<not> length expected \<le> i0" by simp
  from 0(4) x have "cls x = Inl e \<or> (\<exists>obj. cls x = Inr obj \<and> gs obj = Inl e)" by simp
  then show ?case using x i0 by auto
next
  case (Suc k)
  then obtain x rest where x: "inputs = x # rest" by (cases inputs) auto
  from Suc.prems x have i0: "\<not> length expected \<le> i0" by simp
  from Suc.prems(3) x obtain obj sol r where
    ok: "cls x = Inr obj" "gs obj = Inr sol" "compute_score [] x sol (expected ! i0) = Inr r"
    by force
  from compute_score_returns[OF ok(3)] obtain sc w1 where
    sc: "compute_score w x sol (expected ! i0) = Inr (sc, w1)" by force
  have a: "k < length rest" using Suc.prems(1) x by simp
  have b: "Suc i0 + k < length expected" using Suc.prems(2) by simp
  have c: "\<forall>i<k. \<exists>obj sol r. cls (rest ! i) = Inr obj \<and> gs obj = Inr sol
           \<and> compute_score [] (rest ! i) sol (expected ! (Suc i0 + i)) = Inr r"
  proof (intro allI impI)
    fix i assume "i < k"
    then have "Suc i < Suc k" by simp
    with Suc.prems(3) x show "\<exists>obj sol r. cls (rest ! i) = Inr obj \<and> gs obj = Inr sol
           \<and> compute_score [] (rest ! i) sol (expected ! (Suc i0 + i)) = Inr r"
      by fastforce
  qed
  have d: "cls (rest ! k) = Inl e \<or> (\<exists>obj. cls (rest ! k) = Inr obj \<and> gs obj = Inl e)"
    using Suc.prems(4) x by simp
  from Suc.IH[OF a b c d, of w1 "scores @ [fmul sc (Fin 100)]"] x i0 ok sc
  show ?case by simp
qed

text \<open>
  C4: when the run reaches record \<open>k\<close> (the records before it were constructed, solved
  and scored, and the record has an expected solution) and the construction of the candidate
  or its solving method raises there with message \<open>e\<close>, \<^verbatim>\<open>run\<close> returns at once a
  result of \<open>0.0\<close> percent whose message is the fixed prefix followed by \<open>e\<close>. The
  scores of the records before \<open>k\<close> and the records after it do not enter the result, and
  \<^verbatim>\<open>np.mean\<close> is not consulted.
\<close>

theorem run_fail_fast:
  assumes "k < length constructor_inputs" and "k < length expected_solutions"
    and "\<forall>i<k. \<exists>obj solution r.
           cls_to_test (constructor_inputs ! i) = Inr obj \<and> get_solution obj = Inr solution
           \<and> compute_score [] (constructor_inputs ! i) solution (expected_solutions ! i) = Inr r"
    and "cls_to_test (constructor_inputs ! k) = Inl e
         \<or> (\<exists>obj. cls_to_test (constructor_inputs ! k) = Inr obj \<and> get_solution obj = Inl e)"
  shows "\<exists>prefix warnings'.
           run np_mean nm cls_to_test get_solution constructor_inputs expected_solutions warnings
             = Inr (\<lparr>name = nm, percent_value = Fin 0, message = prefix @ e\<rparr>, warnings')
           \<and> (prefix = ''Error raised during instantiation: ''
                \<or> prefix = ''Error raised during test: '')"
proof -
  from assms(2) have b: "0 + k < length expected_solutions" by simp
  from assms(3) have c: "\<forall>i<k. \<exists>obj sol r.
      cls_to_test (constructor_inputs ! i) = Inr obj \<and> get_solution obj = Inr sol
      \<and> compute_score [] (constructor_inputs ! i) sol (expected_solutions ! (0 + i)) = Inr r"
    by simp
  from run_loop_fail_fast[OF assms(1) b c assms(4), of nm warnings "[]"]
  obtain prefix w' where
    "run_loop nm cls_to_test get_solution expected_solutions warnings [] 0 constructor_inputs
       = Inr (Returned \<lparr>name = nm, percent_value = Fin 0, message = prefix @ e\<rparr> w')"
    "prefix = ''Error raised during instantiation: '' \<or> prefix = ''Error raised during test: ''"
    by blast
  then show ?thesis by (auto simp: run_def)
qed

lemma scenario_score:
  "compute_score [] scenario_graph [0, 1, 2, 0] (Some [0, 2, 1, 0]) = Inr (Fin 1, [])"
  by (simp add: score_defs rnd_million)

theorem run_fail_fast_witness:
  "run demo_mean ''perf'' demo_cls demo_solve
      [scenario_graph, ring_graph (Fin 1) (Fin 2), scenario_graph]
      [Some [0, 2, 1, 0], Some [0, 2, 1, 3, 0], Some [0, 2, 1, 0]] []
     = Inr (\<lparr>name = ''perf'', percent_value = Fin 0,
             message = ''Error raised during instantiation: only three nodes''\<rparr>, [])"
proof -
  have ok: "\<forall>i<1. \<exists>obj solution r.
      demo_cls ([scenario_graph, ring_graph (Fin 1) (Fin 2), scenario_graph] ! i) = Inr obj
      \<and> demo_solve obj = Inr solution
      \<and> compute_score [] ([scenario_graph, ring_graph (Fin 1) (Fin 2), scenario_graph] ! i)
            solution ([Some [0, 2, 1, 0], Some [0, 2, 1, 3, 0], Some [0, 2, 1, 0]] ! i) = Inr r"
    by (simp add: demo_cls_def demo_solve_def scenario_graph_def[symmetric] scenario_score)
      (simp add: scenario_graph_def)
  have bad: "demo_cls ([scenario_graph, ring_graph (Fin 1) (Fin 2), scenario_graph] ! 1)
      = Inl ''only three nodes''
    \<or> (\<exists>obj. demo_cls ([scenario_graph, ring_graph (Fin 1) (Fin 2), scenario_graph] ! 1) = Inr obj
         \<and> demo_solve obj = Inl ''only three nodes'')"
    by (simp add: demo_cls_def ring_graph_def)
  from run_fail_fast[where k = 1 and np_mean = demo_mean and nm = "''perf''"
      and warnings = "[]", OF _ _ ok bad]
  obtain prefix w' where r: "run demo_mean ''perf'' demo_cls demo_solve
      [scenario_graph, ring_graph (Fin 1) (Fin 2), scenario_graph]
      [Some [0, 2, 1, 0], Some [0, 2, 1, 3, 0], Some [0, 2, 1, 0]] []
     = Inr (\<lparr>name = ''perf'', percent_value = Fin 0,
             message = prefix @ ''only three nodes''\<rparr>, w')"
    by auto
  have e: "run demo_mean ''perf'' demo_cls demo_solve
      [scenario_graph, ring_graph (Fin 1) (Fin 2), scenario_graph]
      [Some [0, 2, 1, 0], Some [0, 2, 1, 3, 0], Some [0, 2, 1, 0]] []
     = Inr (\<lparr>name = ''perf'', percent_value = Fin 0,
             message = ''Error raised during instantiation: only three nodes''\<rparr>, [])"
    by (simp add: run_def demo_cls_def demo_solve_def scenario_score)
      (simp add: scenario_graph_def ring_graph_def)
  from r e show ?thesis by simp
qed

subsection \<open>The staging folder\<close>

lemma nat_of_str_snoc: "nat_of_str (s @ [c]) = 10 * nat_of_str s + (of_char c - 48)"
  by (simp add: nat_of_str_def)

lemma digit_value: "d < 10 \<Longrightarrow> of_char (char_of (48 + d) :: char) - 48 = (d :: nat)"
  by simp

lemma nat_of_str_str_nat: "nat_of_str (str_nat k) = k"
proof (induction k rule: str_nat.induct)
  case (1 k)
  show ?case
  proof (cases "k < 10")
    case True
    then have "str_nat k = [] @ [char_of (48 + k)]" by (simp add: str_nat.simps)
    then have "nat_of_str (str_nat k) = 10 * nat_of_str [] + (of_char (char_of (48 + k) :: char) - 48)"
      by (simp only: nat_of_str_snoc)
    with True show ?thesis by (simp add: nat_of_str_def)
  next
    case False
    then have "str_nat k = str_nat (k div 10) @ [char_of (48 + k mod 10)]"
      by (subst str_nat.simps) simp
    then have "nat_of_str (str_nat k)
        = 10 * nat_of_str (str_nat (k div 10)) + (of_char (char_of (48 + k mod 10) :: char) - 48)"
      by (simp only: nat_of_str_snoc)
    also have "\<dots> = 10 * (k div 10) + k mod 10"
      using 1[OF False] by (simp add: digit_value)
    finally show ?thesis by simp
  qed
qed

lemma str_nat_inj: "str_nat i = str_nat j \<Longrightarrow> i = j"
  by (metis nat_of_str_str_nat)

lemma file_name_inj: "file_name i = file_name j \<longleftrightarrow> i = j"
  by (auto simp: file_name_def dest: str_nat_inj)

lemma update_fresh: "k \<notin> fst ` set al \<Longrightarrow> AList.update k v al = al @ [(k, v)]"
  by (induction al) auto

lemma gen_random_graph_valid:
  "valid_method g \<Longrightarrow> \<exists>adj. gen_random_graph ext n seed g = Inr adj"
  by (auto simp: valid_method_def gen_random_graph_def)

lemma gen_datum_valid:
  assumes "valid_method g"
  shows "\<exists>d. gen_datum ext n seed g tsp (Some p) files = Inr (d, AList.update p d files)"
proof -
  from gen_random_graph_valid[OF assms] obtain adj where
    "gen_random_graph ext n seed g = Inr adj" by blast
  then show ?thesis
    by (cases "gen_best_solution ext adj tsp") (simp add: gen_datum_def Let_def)
qed

lemma update_keys_set: "fst ` set (AList.update k v al) = insert k (fst ` set al)"
  by (induction al) auto

lemma run_tasks_keys:
  assumes "\<forall>g\<in>set (task_methods args). valid_method g"
  shows "\<exists>files'. run_tasks ext tsp args files = Inr files'
           \<and> fst ` set files' = fst ` set files \<union> set (task_paths args)"
  using assms
proof (induction args arbitrary: files)
  case Nil
  then show ?case by (simp add: task_paths_def)
next
  case (Cons a args)
  obtain n s g p where a: "a = (n, s, g, p)" by (cases a)
  from Cons.prems a have "valid_method g" by (simp add: task_methods_def)
  from gen_datum_valid[OF this] obtain d where
    d: "gen_datum ext n s g tsp (Some p) files = Inr (d, AList.update p d files)" by blast
  from Cons.prems have "\<forall>g\<in>set (task_methods args). valid_method g"
    by (simp add: task_methods_def)
  from Cons.IH[OF this, of "AList.update p d files"] obtain files' where
    f: "run_tasks ext tsp args (AList.update p d files) = Inr files'"
      "fst ` set files' = fst ` set (AList.update p d files) \<union> set (task_paths args)"
    by blast
  have "run_tasks ext tsp (a # args) files = Inr files'"
    using f(1) a d by simp
  moreover have "fst ` set files' = fst ` set files \<union> set (task_paths (a # args))"
    using f(2) a by (simp add: update_keys_set task_paths_def)
  ultimately show ?case by blast
qed

lemma run_tasks_appends:
  assumes "\<forall>g\<in>set (task_methods args). valid_method g"
    and "distinct (task_paths args)"
    and "set (task_paths args) \<inter> fst ` set files = {}"
  shows "\<exists>new. run_tasks ext tsp args files = Inr (files @ new)
           \<and> map fst new = task_paths args"
  using assms
proof (induction args arbitrary: files)
  case Nil
  then show ?case by (simp add: task_paths_def)
next
  case (Cons a args)
  obtain n s g p where a: "a = (n, s, g, p)" by (cases a)
  from Cons.prems a have "valid_method g" by (simp add: task_methods_def)
  from gen_datum_valid[OF this] obtain d where
    d: "gen_datum ext n s g tsp (Some p) files = Inr (d, AList.update p d files)" by blast
  from Cons.prems(3) a have "p \<notin> fst ` set files" by (auto simp: task_paths_def)
  then have u: "AList.update p d files = files @ [(p, d)]" by (rule update_fresh)
  have 1: "\<forall>g\<in>set (task_methods args). valid_method g"
    using Cons.prems(1) by (simp add: task_methods_def)
  have 2: "distinct (task_paths args)" using Cons.prems(2) by (simp add: task_paths_def)
  have 3: "set (task_paths args) \<inter> fst ` set (files @ [(p, d)]) = {}"
    using Cons.prems(2,3) a by (auto simp: task_paths_def)
  from Cons.IH[OF 1 2 3] obtain new where
    n: "run_tasks ext tsp args (files @ [(p, d)]) = Inr ((files @ [(p, d)]) @ new)"
      "map fst new = task_paths args"
    by blast
  from n a d u have "run_tasks ext tsp (a # args) files = Inr (files @ ((p, d) # new))
      \<and> map fst ((p, d) # new) = task_paths (a # args)"
    by (simp add: task_paths_def)
  then show ?case by blast
qed

lemma all_task_args_valid:
  assumes "fst rng < snd rng" and "gms \<noteq> []" and "\<forall>g\<in>set gms. valid_method g"
  shows "\<exists>args. all_task_args ext seed rng gms k idxs = Inr args
           \<and> task_paths args = map (\<lambda>i. file_name (i + k)) idxs
           \<and> (\<forall>g\<in>set (task_methods args). valid_method g)"
proof (induction idxs)
  case Nil
  then show ?case by (simp add: task_paths_def task_methods_def)
next
  case (Cons i idxs)
  then obtain args where
    a: "all_task_args ext seed rng gms k idxs = Inr args"
      "task_paths args = map (\<lambda>i. file_name (i + k)) idxs"
      "\<forall>g\<in>set (task_methods args). valid_method g"
    by blast
  have "rs_choice ext seed i (length gms) mod length gms < length gms"
    using assms(2) by simp
  then have "valid_method (gms ! (rs_choice ext seed i (length gms) mod length gms))"
    using assms(3) by simp
  with a assms(1,2) show ?case
    by (simp add: task_args_def task_paths_def task_methods_def file_name_def)
qed

lemma names_distinct: "distinct (map (\<lambda>i. file_name (i + k)) [0..<n])"
  by (simp add: distinct_map inj_on_def file_name_inj)

lemma names_fresh:
  assumes "map fst files = map file_name [0..<length files]"
  shows "set (map (\<lambda>i. file_name (i + length files)) [0..<n]) \<inter> fst ` set files = {}"
proof -
  have "fst ` set files = set (map fst files)" by simp
  also have "\<dots> = file_name ` {0..<length files}" by (subst assms) simp
  finally have "fst ` set files = file_name ` {0..<length files}" .
  then show ?thesis by (auto simp: file_name_inj)
qed

text \<open>
  C8: a run of \<^verbatim>\<open>gen_dataset\<close> with valid arguments starts from the staging files
  present (none when the folder is missing or cleared). It writes the record of index \<open>i\<close>
  to the file named by \<open>i\<close> plus the number of files present, so the names in the folder
  afterwards are the old names and these. When the files present are named \<open>0\<close> to
  \<open>k - 1\<close>, as earlier runs leave them, the run appends its \<open>n\<close> files after them: the
  old entries are unchanged, no file is overwritten, and all names differ. The merged data
  are the contents of all the files. Scenario C is the instance of five files, then three.
\<close>

theorem staging_files_named_by_offset:
  assumes "fst n_nodes_range < snd n_nodes_range"
    and "gen_methods \<noteq> []" and "\<forall>g\<in>set gen_methods. valid_method g"
    and "files = (case temp_folder of None \<Rightarrow> [] | Some fs \<Rightarrow> if rm_temp_folder then [] else fs)"
  shows "\<exists>files' data.
           gen_dataset ext n_data n_nodes_range gen_methods tsp_methods seed rm_temp_folder
             temp_folder = Inr (files', data)
         \<and> data = map snd files'
         \<and> fst ` set files' = fst ` set files \<union> (\<lambda>i. file_name (i + length files)) ` {0..<n_data}
         \<and> (map fst files = map file_name [0..<length files] \<longrightarrow>
              (\<exists>new. files' = files @ new
                 \<and> map fst new = map (\<lambda>i. file_name (i + length files)) [0..<n_data]
                 \<and> distinct (map fst files')))"
proof -
  define tsp where "tsp = (case tsp_methods of MethodsStr s \<Rightarrow> MethodsSeq [MStr s] | m \<Rightarrow> m)"
  from all_task_args_valid[OF assms(1,2,3), of ext seed "length files" "[0..<n_data]"]
  obtain args where
    a: "all_task_args ext seed n_nodes_range gen_methods (length files) [0..<n_data] = Inr args"
      "task_paths args = map (\<lambda>i. file_name (i + length files)) [0..<n_data]"
      "\<forall>g\<in>set (task_methods args). valid_method g"
    by blast
  from run_tasks_keys[OF a(3), of ext tsp files] obtain files' where
    f: "run_tasks ext tsp args files = Inr files'"
      "fst ` set files' = fst ` set files \<union> set (task_paths args)"
    by blast
  have g: "gen_dataset ext n_data n_nodes_range gen_methods tsp_methods seed rm_temp_folder
      temp_folder = Inr (files', map snd files')"
    using a(1) f(1) assms(4)
    by (simp add: gen_dataset_def Let_def tsp_def gather_all_data_from_temp_folder_def)
  have k: "fst ` set files' = fst ` set files \<union> (\<lambda>i. file_name (i + length files)) ` {0..<n_data}"
    using f(2) a(2) by simp
  have app: "\<exists>new. files' = files @ new
      \<and> map fst new = map (\<lambda>i. file_name (i + length files)) [0..<n_data]
      \<and> distinct (map fst files')"
    if names: "map fst files = map file_name [0..<length files]"
  proof -
    have d: "distinct (task_paths args)" unfolding a(2) by (rule names_distinct)
    have i: "set (task_paths args) \<inter> fst ` set files = {}"
      unfolding a(2) by (rule names_fresh[OF names])
    from run_tasks_appends[OF a(3) d i, of ext tsp] f(1) obtain new where
      n: "files' = files @ new" "map fst new = task_paths args" by auto
    have "distinct (map fst files)"
      by (subst names) (simp add: distinct_map inj_on_def file_name_inj)
    moreover have "set (map fst files) \<inter> set (map fst new) = {}"
      using i n(2) by auto
    ultimately have "distinct (map fst files')"
      using d n by simp
    with n a(2) show ?thesis by simp
  qed
  from g k app show ?thesis by blast
qed

lemma names_0_5: "map file_name [0..<5] = [''0.pkl'', ''1.pkl'', ''2.pkl'', ''3.pkl'', ''4.pkl'']"
  by code_simp

lemma names_5_8:
  "map (\<lambda>i. file_name (i + 5)) [0..<3] = [''5.pkl'', ''6.pkl'', ''7.pkl'']"
  by code_simp

theorem staging_files_named_by_offset_witness:
  "\<exists>files1 data1 new2 data2.
     gen_dataset demo_env 5 (2, 4) [GStr ''random'', GStr ''geometric'']
         (MethodsSeq [MStr ''christofides'']) 0 False (Some []) = Inr (files1, data1)
   \<and> map fst files1 = [''0.pkl'', ''1.pkl'', ''2.pkl'', ''3.pkl'', ''4.pkl'']
   \<and> length data1 = 5
   \<and> gen_dataset demo_env 3 (2, 4) [GStr ''random'', GStr ''geometric'']
         (MethodsSeq [MStr ''christofides'']) 0 False (Some files1)
       = Inr (files1 @ new2, data2)
   \<and> map fst new2 = [''5.pkl'', ''6.pkl'', ''7.pkl'']
   \<and> length data2 = 8"
proof -
  have r: "fst (2 :: nat, 4 :: nat) < snd (2 :: nat, 4 :: nat)" by simp
  have m: "[GStr ''random'', GStr ''geometric''] \<noteq> []"
    "\<forall>g\<in>set [GStr ''random'', GStr ''geometric'']. valid_method g"
    by (simp_all add: valid_method_def)
  have s1: "([] :: folder) = (case Some [] of None \<Rightarrow> [] | Some fs \<Rightarrow> if False then [] else fs)"
    by simp
  from staging_files_named_by_offset[OF r m s1, of demo_env 5
      "MethodsSeq [MStr ''christofides'']" 0]
  obtain files1 data1 where
    1: "gen_dataset demo_env 5 (2, 4) [GStr ''random'', GStr ''geometric'']
         (MethodsSeq [MStr ''christofides'']) 0 False (Some []) = Inr (files1, data1)"
      "data1 = map snd files1"
      "map fst files1 = map (\<lambda>i. file_name (i + 0)) [0..<5]"
    by auto
  from 1(3) have n1: "map fst files1 = [''0.pkl'', ''1.pkl'', ''2.pkl'', ''3.pkl'', ''4.pkl'']"
    using names_0_5 by simp
  have "length (map fst files1) = 5" unfolding n1 by simp
  then have l1: "length files1 = 5" by simp
  have n1': "map fst files1 = map file_name [0..<length files1]"
    unfolding l1 n1 names_0_5 ..
  have s2: "files1 = (case Some files1 of None \<Rightarrow> [] | Some fs \<Rightarrow> if False then [] else fs)"
    by simp
  from staging_files_named_by_offset[OF r m s2, of demo_env 3
      "MethodsSeq [MStr ''christofides'']" 0] n1'
  obtain new2 data2 where
    2: "gen_dataset demo_env 3 (2, 4) [GStr ''random'', GStr ''geometric'']
         (MethodsSeq [MStr ''christofides'']) 0 False (Some files1)
       = Inr (files1 @ new2, data2)"
      "data2 = map snd (files1 @ new2)"
      "map fst new2 = map (\<lambda>i. file_name (i + length files1)) [0..<3]"
    by auto
  from 2(3) have n2: "map fst new2 = [''5.pkl'', ''6.pkl'', ''7.pkl'']"
    unfolding l1 names_5_8 .
  have "length (map fst new2) = 3" unfolding n2 by simp
  then have l2: "length new2 = 3" by simp
  from 1(2) l1 have d1: "length data1 = 5" by simp
  from 2(2) l1 l2 have d2: "length data2 = 8" by simp
  show ?thesis
    by (intro exI[of _ files1] exI[of _ data1] exI[of _ new2] exI[of _ data2] conjI)
      (fact 1(1) n1 d1 2(1) n2 d2)+
qed

subsection \<open>Degenerate graphs\<close>

text \<open>
  Two cases the theorems above leave aside. \<^verbatim>\<open>squeeze\<close> turns the matrix of a
  one-node graph into a zero-dimensional array, on which \<^verbatim>\<open>shape[0]\<close> and every
  lookup raise. On the empty matrix the one-entry tour is accepted, both path costs are the
  Python integer \<open>0\<close>, and their division raises.
\<close>

lemma one_node_graph_raises:
  "is_hamiltonian_cycle [[PInf]] [0, 0] = Inl IndexError"
  "get_path_cost [[NaN]] [0, 0] = Inl IndexError"
  by (simp_all add: is_hamiltonian_cycle_def get_path_cost_def eval_defs)

lemma empty_graph_division_raises:
  "is_hamiltonian_cycle [] [5] = Inr True"
  "compute_score [] [] [5] (Some []) = Inl ZeroDivisionError"
  by (simp_all add: score_defs)

end
